theory Spec2Isabelle
  imports Complex_Main "HOL-Library.Log_Nat"
begin

section \<open>Transformer-XL (Chinese): preprocessing and model core\<close>

text \<open>
  A shallow embedding of the parts of \<^verbatim>\<open>tf/data_utils_chinese.py\<close> and
  \<^verbatim>\<open>tf/model.py\<close> that the specification's properties are about.
  Python integers are \<open>int\<close>; arrays and tensors are lists (row-major where a
  shape matters); exceptions are values of the datatype \<open>error\<close>.
\<close>

datatype error = AssertionError | IndexError | ValueError | ZeroDivisionError | InvalidArgument

subsection \<open>BucketPlanner: nearest-to-eight rounding\<close>

text \<open>
  \<^verbatim>\<open>
  def _nearest_to_eight(x):  # so that it's faster on TPUs
      y = x - x % 8
      return y + 8 if x % 8 >= 4 else max(8, y)
  \<close>
  Python's \<open>%\<close> with a positive divisor is the floored remainder, as \<open>mod\<close> on
  \<open>int\<close>.
\<close>

definition nearest_to_eight :: "int \<Rightarrow> int" where
  "nearest_to_eight x = (let y = x - x mod 8 in if x mod 8 \<ge> 4 then y + 8 else max 8 y)"

subsection \<open>RelativeAttentionCore: the memory update\<close>

text \<open>
  A tensor of hidden states \<open>[len, bsz, d_model]\<close> is the list of its rows along the
  first axis. \<open>x[k:]\<close> on that axis, as Python and TensorFlow slice it: a negative
  start counts from the end, and a start before the first row is the first row.
\<close>

definition slice_from :: "int \<Rightarrow> 'a list \<Rightarrow> 'a list" where
  "slice_from k xs =
     (if k < 0 then drop (nat (int (length xs) + k)) xs else drop (nat k) xs)"

text \<open>
  \<^verbatim>\<open>
  def _cache_mem(curr_out, prev_mem, mem_len=None):
      if mem_len is None or prev_mem is None:
          new_mem = curr_out
      elif mem_len == 0:
          return prev_mem
      else:
          new_mem = tf.concat([prev_mem, curr_out], 0)[- mem_len:]
      return tf.stop_gradient(new_mem)
  \<close>
  \<open>None\<close> is the Python \<open>None\<close>; \<open>stop_gradient\<close> is the identity on values.
\<close>

definition cache_mem :: "'a list \<Rightarrow> 'a list option \<Rightarrow> int option \<Rightarrow> 'a list" where
  "cache_mem curr_out prev_mem mem_len =
     (case mem_len of
        None \<Rightarrow> curr_out
      | Some m \<Rightarrow>
          (case prev_mem of
             None \<Rightarrow> curr_out
           | Some pm \<Rightarrow> if m = 0 then pm else slice_from (- m) (pm @ curr_out)))"

text \<open>
  The memory part of \<^verbatim>\<open>transformer\<close>: \<open>outputs ! i\<close> is the input of layer \<open>i\<close>
  (the variable \<^verbatim>\<open>output\<close> when the loop reaches layer \<open>i\<close>).
  \<^verbatim>\<open>
  if mems is None:
      mems = [None] * n_layer
  for i in range(n_layer):
      new_mems.append(_cache_mem(output, mems[i], mem_len))
  \<close>
\<close>

definition new_mems :: "'a list list \<Rightarrow> 'a list list option \<Rightarrow> nat \<Rightarrow> int option
    \<Rightarrow> error + 'a list list" where
  "new_mems outputs mems n_layer mem_len =
     (let ms = (case mems of None \<Rightarrow> replicate n_layer None | Some l \<Rightarrow> map Some l)
      in if length ms < n_layer \<or> length outputs < n_layer then Inl IndexError
         else Inr (map (\<lambda>i. cache_mem (outputs ! i) (ms ! i) mem_len) [0..<n_layer]))"

subsection \<open>Matrices\<close>

text \<open>
  A tensor whose first two axes matter is a shape and a row-major buffer, as
  TensorFlow stores it; an element of the buffer stands for the block of trailing
  axes (\<open>[bsz, n_head]\<close> in the attention scores), which no operation below looks
  into. \<open>mat_of r c f\<close> is the \<open>r \<times> c\<close> matrix with \<open>f i j\<close> at \<open>(i, j)\<close>, and
  \<open>entry m i j\<close> reads the buffer at \<open>i * ncols + j\<close>. Float tensors are
  idealised as tensors of reals.
\<close>

record 'a mat =
  nrows :: nat
  ncols :: nat
  elems :: "'a list"

definition mat_of :: "nat \<Rightarrow> nat \<Rightarrow> (nat \<Rightarrow> nat \<Rightarrow> 'a) \<Rightarrow> 'a mat" where
  "mat_of r c f = \<lparr>nrows = r, ncols = c, elems = map (\<lambda>k. f (k div c) (k mod c)) [0..<r * c]\<rparr>"

definition entry :: "'a mat \<Rightarrow> nat \<Rightarrow> nat \<Rightarrow> 'a" where
  "entry m i j = elems m ! (i * ncols m + j)"

text \<open>
  The TensorFlow operations \<^verbatim>\<open>_create_mask\<close> uses. \<open>matrix_band_part\<close> keeps
  \<open>(i, j)\<close> when \<open>(num_lower < 0 || i - j <= num_lower) && (num_upper < 0 || j - i <= num_upper)\<close>
  and writes 0 elsewhere; \<open>concat1\<close> is \<open>tf.concat(.., 1)\<close> of matrices with the same
  number of rows; \<open>cols_upto m k\<close> is \<open>m[:, :k]\<close> and \<open>cols_from m k\<close> is \<open>m[:, k:]\<close>.
\<close>

definition ones :: "nat \<Rightarrow> nat \<Rightarrow> real mat" where
  "ones r c = mat_of r c (\<lambda>i j. 1)"

definition zeros :: "nat \<Rightarrow> nat \<Rightarrow> real mat" where
  "zeros r c = mat_of r c (\<lambda>i j. 0)"

definition matrix_band_part :: "real mat \<Rightarrow> int \<Rightarrow> int \<Rightarrow> real mat" where
  "matrix_band_part m num_lower num_upper =
     mat_of (nrows m) (ncols m)
       (\<lambda>i j. if (num_lower < 0 \<or> int i - int j \<le> num_lower)
                  \<and> (num_upper < 0 \<or> int j - int i \<le> num_upper)
               then entry m i j else 0)"

definition concat1 :: "'a mat \<Rightarrow> 'a mat \<Rightarrow> 'a mat" where
  "concat1 a b =
     mat_of (nrows a) (ncols a + ncols b)
       (\<lambda>i j. if j < ncols a then entry a i j else entry b i (j - ncols a))"

definition cols_upto :: "'a mat \<Rightarrow> nat \<Rightarrow> 'a mat" where
  "cols_upto m k = mat_of (nrows m) (min k (ncols m)) (\<lambda>i j. entry m i j)"

definition cols_from :: "'a mat \<Rightarrow> nat \<Rightarrow> 'a mat" where
  "cols_from m k = mat_of (nrows m) (ncols m - k) (\<lambda>i j. entry m i (j + k))"

definition mat_add :: "real mat \<Rightarrow> real mat \<Rightarrow> real mat" where
  "mat_add a b = mat_of (nrows a) (ncols a) (\<lambda>i j. entry a i j + entry b i j)"

definition mat_sub :: "real mat \<Rightarrow> real mat \<Rightarrow> real mat" where
  "mat_sub a b = mat_of (nrows a) (ncols a) (\<lambda>i j. entry a i j - entry b i j)"

text \<open>
  \<^verbatim>\<open>
  def _create_mask(qlen, mlen, same_length=False):
      attn_mask = tf.ones([qlen, qlen])
      mask_u = tf.matrix_band_part(attn_mask, 0, -1)
      mask_dia = tf.matrix_band_part(attn_mask, 0, 0)
      attn_mask_pad = tf.zeros([qlen, mlen])
      ret = tf.concat([attn_mask_pad, mask_u - mask_dia], 1)
      if same_length:
          mask_l = tf.matrix_band_part(attn_mask, -1, 0)
          ret = tf.concat([ret[:, :qlen] + mask_l - mask_dia, ret[:, qlen:]], 1)
      return ret
  \<close>
\<close>

definition create_mask :: "nat \<Rightarrow> nat \<Rightarrow> bool \<Rightarrow> real mat" where
  "create_mask qlen mlen same_length =
     (let attn_mask = ones qlen qlen;
          mask_u = matrix_band_part attn_mask 0 (- 1);
          mask_dia = matrix_band_part attn_mask 0 0;
          attn_mask_pad = zeros qlen mlen;
          ret = concat1 attn_mask_pad (mat_sub mask_u mask_dia)
      in if same_length then
           (let mask_l = matrix_band_part attn_mask (- 1) 0
            in concat1 (mat_sub (mat_add (cols_upto ret qlen) mask_l) mask_dia)
                 (cols_from ret qlen))
         else ret)"

subsection \<open>RelativeAttentionCore: the relative shift\<close>

text \<open>
  \<^verbatim>\<open>
  def rel_shift(x):
      x_size = tf.shape(x)
      x = tf.pad(x, [[0, 0], [1, 0], [0, 0], [0, 0]])
      x = tf.reshape(x, [x_size[1] + 1, x_size[0], x_size[2], x_size[3]])
      x = tf.slice(x, [1, 0, 0, 0], [-1, -1, -1, -1])
      x = tf.reshape(x, x_size)
      return x
  \<close>
  \<open>pad_front1\<close> pads one zero in front of the second axis; \<open>reshape\<close> keeps the
  buffer and changes the shape, and fails when the sizes differ;
  \<open>slice_rows_from1\<close> drops the first row.
\<close>

definition wf_mat :: "'a mat \<Rightarrow> bool" where
  "wf_mat m = (length (elems m) = nrows m * ncols m)"

definition pad_front1 :: "'a::zero mat \<Rightarrow> 'a mat" where
  "pad_front1 x =
     mat_of (nrows x) (ncols x + 1) (\<lambda>i j. if j = 0 then 0 else entry x i (j - 1))"

definition reshape :: "'a mat \<Rightarrow> nat \<Rightarrow> nat \<Rightarrow> error + 'a mat" where
  "reshape x r c =
     (if r * c = length (elems x) then Inr \<lparr>nrows = r, ncols = c, elems = elems x\<rparr>
      else Inl InvalidArgument)"

definition slice_rows_from1 :: "'a mat \<Rightarrow> error + 'a mat" where
  "slice_rows_from1 x =
     (if nrows x < 1 then Inl InvalidArgument
      else Inr \<lparr>nrows = nrows x - 1, ncols = ncols x, elems = drop (ncols x) (elems x)\<rparr>)"

definition rel_shift :: "'a::zero mat \<Rightarrow> error + 'a mat" where
  "rel_shift x =
     (let x_size = (nrows x, ncols x);
          x1 = pad_front1 x
      in case reshape x1 (snd x_size + 1) (fst x_size) of
           Inl e \<Rightarrow> Inl e
         | Inr x2 \<Rightarrow>
             (case slice_rows_from1 x2 of
                Inl e \<Rightarrow> Inl e
              | Inr x3 \<Rightarrow> reshape x3 (fst x_size) (snd x_size)))"

text \<open>
  The position term of \<^verbatim>\<open>rel_multihead_attn\<close>, for one batch index and one head:
  \<^verbatim>\<open>
  rr_head_q = w_head_q + r_r_bias
  BD = tf.einsum('ibnd,jnd->ijbn', rr_head_q, r_head_k)
  BD = rel_shift(BD)
  \<close>
  Row \<open>j\<close> of \<open>r_head_k\<close> is the projected embedding of position \<open>pos_seq[j]\<close>, with
  \<^verbatim>\<open>
  pos_seq = tf.range(klen - 1, -1, -1.0)
  if clamp_len > 0:
      pos_seq = tf.minimum(pos_seq, clamp_len)
  \<close>
  in \<^verbatim>\<open>transformer\<close>. The embedding of a position (sinusoids followed by the dense
  layer \<open>r\<close>) is a parameter \<open>R\<close> of the theorems.
\<close>

definition dot :: "real list \<Rightarrow> real list \<Rightarrow> real" where
  "dot u v = sum_list (map2 (*) u v)"

definition pos_seq :: "nat \<Rightarrow> int \<Rightarrow> int list" where
  "pos_seq klen clamp_len =
     map (\<lambda>j. let p = int klen - 1 - int j in if clamp_len > 0 then min p clamp_len else p)
       [0..<klen]"

definition position_term :: "real list list \<Rightarrow> real list \<Rightarrow> real list list \<Rightarrow> real mat" where
  "position_term w_head_q r_r_bias r_head_k =
     mat_of (length w_head_q) (length r_head_k)
       (\<lambda>i j. dot (map2 (+) (w_head_q ! i) r_r_bias) (r_head_k ! j))"

subsection \<open>PermutationEncoder\<close>

text \<open>
  A serialized example: \<open>inputs\<close> and \<open>labels\<close> always, and in bucketed static mode
  (\<open>len(cutoffs) > 0 and use_tpu\<close>) the head masks, \<open>head_labels\<close> and, for every tail
  bucket \<open>b\<close>, the pair (\<open>inp_cnt_b\<close>, \<open>inp_tup_b\<close>) and (\<open>tgt_cnt_b\<close>, \<open>tgt_tup_b\<close>):
  the lists \<open>inp_perm\<close> and \<open>tgt_perm\<close>, indexed by \<open>b\<close>. The file name and the progress
  messages of \<^verbatim>\<open>create_ordered_tfrecords\<close> are left out; \<open>config\<close> holds its
  parameters.
\<close>

record bucket_features =
  inp_mask :: "real list"
  tgt_mask :: "real list"
  head_labels :: "int list"
  inp_perm :: "(nat \<times> int list) list"
  tgt_perm :: "(nat \<times> int list) list"

record example =
  inputs :: "int list"
  labels :: "int list"
  bucketed :: "bucket_features option"

record config =
  cutoffs :: "int list"
  bin_sizes :: "int list"
  batch_size :: nat
  tgt_len :: nat
  num_core_per_host :: nat
  use_tpu :: bool

text \<open>
  \<open>in_range left right x\<close> is \<^verbatim>\<open>(x >= left) * (x < right)\<close>; \<open>np_where P xs\<close> is
  \<^verbatim>\<open>np.where(..)[0]\<close>, the positions where the condition holds, in increasing
  order; \<open>tail_bins\<close> is \<^verbatim>\<open>enumerate(zip(cutoffs[1:-1], cutoffs[2:]))\<close>;
  \<open>set_positions xs ps v\<close> is the assignment \<^verbatim>\<open>xs[ps] = v\<close>.
\<close>

definition in_range :: "int \<Rightarrow> int \<Rightarrow> int \<Rightarrow> bool" where
  "in_range left right x = (left \<le> x \<and> x < right)"

definition np_where :: "('a \<Rightarrow> bool) \<Rightarrow> 'a list \<Rightarrow> nat list" where
  "np_where P xs = filter (\<lambda>i. P (xs ! i)) [0..<length xs]"

definition range_mask :: "int \<Rightarrow> int \<Rightarrow> int list \<Rightarrow> real list" where
  "range_mask left right xs = map (\<lambda>x. if in_range left right x then 1 else 0) xs"

definition tail_bins :: "int list \<Rightarrow> (nat \<times> int \<times> int) list" where
  "tail_bins cs = enumerate 0 (zip (butlast (tl cs)) (drop 2 cs))"

definition set_positions :: "'a list \<Rightarrow> nat list \<Rightarrow> 'a \<Rightarrow> 'a list" where
  "set_positions xs ps v = fold (\<lambda>p ys. ys[p := v]) ps xs"

text \<open>
  \<^verbatim>\<open>
  head_labels = np.copy(labels)
  inp_pos_per_bin, tgt_pos_per_bin = [], []
  for b, (left, right) in enumerate(zip(cutoffs[1:-1], cutoffs[2:])):
      inp_pos = np.where((inputs >= left) * (inputs < right))[0]
      tgt_pos = np.where((labels >= left) * (labels < right))[0]
      inp_pos_per_bin.append(inp_pos)
      tgt_pos_per_bin.append(tgt_pos)
      head_labels[tgt_pos] = cutoffs[1] + b
  \<close>
\<close>

definition bin_step :: "int list \<Rightarrow> int list \<Rightarrow> int list \<Rightarrow> nat \<times> int \<times> int
    \<Rightarrow> int list \<times> nat list list \<times> nat list list
    \<Rightarrow> int list \<times> nat list list \<times> nat list list" where
  "bin_step cs inps labs bin acc =
     (case bin of (b, left, right) \<Rightarrow>
      (case acc of (head_labs, inp_pos_per_bin, tgt_pos_per_bin) \<Rightarrow>
        (let inp_pos = np_where (in_range left right) inps;
             tgt_pos = np_where (in_range left right) labs
         in (set_positions head_labs tgt_pos (cs ! 1 + int b),
             inp_pos_per_bin @ [inp_pos], tgt_pos_per_bin @ [tgt_pos]))))"

definition bin_loop :: "int list \<Rightarrow> int list \<Rightarrow> int list
    \<Rightarrow> int list \<times> nat list list \<times> nat list list" where
  "bin_loop cs inps labs = fold (bin_step cs inps labs) (tail_bins cs) (labs, [], [])"

text \<open>
  \<^verbatim>\<open>
  def _add_perm_feature(feature, pos_per_bin, cnts, prefix):
      for b, pos in enumerate(pos_per_bin):
          idx_tuple = []
          for p in pos:
              if cnts[b] < bin_sizes[b]:
                  idx_tuple.append([p, cnts[b]])
                  cnts[b] += 1
              else:
                  break
          n_tup = len(idx_tuple)
          tup = np.array(idx_tuple).reshape(n_tup * 2)
          feature["{}_cnt_{}".format(prefix, b)] = _int64_feature([n_tup])
          feature["{}_tup_{}".format(prefix, b)] = _int64_feature(tup)
  \<close>
  \<open>scan_pos\<close> is the inner loop, with the counters \<open>cnts\<close> passed through and an
  \<open>IndexError\<close> where \<open>cnts[b]\<close> or \<open>bin_sizes[b]\<close> does not exist;
  \<open>add_perm_feature\<close> is the outer loop, started at \<open>b = 0\<close>.
\<close>

fun scan_pos :: "nat list \<Rightarrow> nat \<Rightarrow> int list \<Rightarrow> int list \<Rightarrow> (int \<times> int) list
    \<Rightarrow> error + ((int \<times> int) list \<times> int list)" where
  "scan_pos [] b sizes cnts idx_tuple = Inr (idx_tuple, cnts)"
| "scan_pos (p # ps) b sizes cnts idx_tuple =
     (if length cnts \<le> b \<or> length sizes \<le> b then Inl IndexError
      else if cnts ! b < sizes ! b
        then scan_pos ps b sizes (cnts[b := cnts ! b + 1]) (idx_tuple @ [(int p, cnts ! b)])
      else Inr (idx_tuple, cnts))"

definition flatten_tuples :: "(int \<times> int) list \<Rightarrow> int list" where
  "flatten_tuples idx_tuple = concat (map (\<lambda>(p, s). [p, s]) idx_tuple)"

fun add_perm_feature :: "nat list list \<Rightarrow> nat \<Rightarrow> int list \<Rightarrow> int list
    \<Rightarrow> error + ((nat \<times> int list) list \<times> int list)" where
  "add_perm_feature [] b sizes cnts = Inr ([], cnts)"
| "add_perm_feature (pos # rest) b sizes cnts =
     (case scan_pos pos b sizes cnts [] of
        Inl e \<Rightarrow> Inl e
      | Inr (idx_tuple, cnts') \<Rightarrow>
          (case add_perm_feature rest (Suc b) sizes cnts' of
             Inl e \<Rightarrow> Inl e
           | Inr (feats, cnts'') \<Rightarrow>
               Inr ((length idx_tuple, flatten_tuples idx_tuple) # feats, cnts'')))"

text \<open>
  The body of the loop over \<open>idx\<close> up to the record that is written (lines 192 to
  251): the assertion, the head masks, the refresh of the counters at the first row
  of each core's shard (\<^verbatim>\<open>idx % (batch_size // num_core_per_host) == 0\<close>), the
  loop over the tail buckets and the two calls of \<^verbatim>\<open>_add_perm_feature\<close>.
  \<^verbatim>\<open>
  if len(cutoffs) > 0 and use_tpu:
      # validate `bin_sizes` and `cutoffs`
      assert len(cutoffs) - len(bin_sizes) == 2, \
          "len(cutoffs) - len(bin_sizes) != 2"
  \<close>
\<close>

definition encode_example :: "config \<Rightarrow> nat \<Rightarrow> int list \<Rightarrow> int list \<Rightarrow> int list \<times> int list
    \<Rightarrow> error + (example \<times> int list \<times> int list)" where
  "encode_example cfg idx inps labs cnts =
     (if length (cutoffs cfg) > 0 \<and> use_tpu cfg then
        if int (length (cutoffs cfg)) - int (length (bin_sizes cfg)) \<noteq> 2 then Inl AssertionError
        else if num_core_per_host cfg = 0 then Inl ZeroDivisionError
        else if batch_size cfg div num_core_per_host cfg = 0 then Inl ZeroDivisionError
        else
          (let left = cutoffs cfg ! 0; right = cutoffs cfg ! 1;
               (inp_cnts, tgt_cnts) =
                 (if idx mod (batch_size cfg div num_core_per_host cfg) = 0
                  then (replicate (length (bin_sizes cfg)) 0, replicate (length (bin_sizes cfg)) 0)
                  else cnts);
               (head_labs, inp_pos_per_bin, tgt_pos_per_bin) = bin_loop (cutoffs cfg) inps labs
           in case add_perm_feature inp_pos_per_bin 0 (bin_sizes cfg) inp_cnts of
                Inl e \<Rightarrow> Inl e
              | Inr (inp_feats, inp_cnts') \<Rightarrow>
                  (case add_perm_feature tgt_pos_per_bin 0 (bin_sizes cfg) tgt_cnts of
                     Inl e \<Rightarrow> Inl e
                   | Inr (tgt_feats, tgt_cnts') \<Rightarrow>
                       Inr (\<lparr>inputs = inps, labels = labs,
                             bucketed = Some \<lparr>inp_mask = range_mask left right inps,
                               tgt_mask = range_mask left right labs,
                               head_labels = head_labs,
                               inp_perm = inp_feats, tgt_perm = tgt_feats\<rparr>\<rparr>,
                            inp_cnts', tgt_cnts')))
      else Inr (\<lparr>inputs = inps, labels = labs, bucketed = None\<rparr>, cnts))"

text \<open>
  \<^verbatim>\<open>
  def batchify(data, batch_size, num_passes):
      if num_passes > 1:
          data_len = len(data)
          double_data = np.concatenate([data, data])
          data_list = []
          for i in range(num_passes):
              start = np.random.randint(0, data_len)
              data_list.append(double_data[start:start + data_len])
          data = np.concatenate(data_list)
      num_step = len(data) // batch_size
      data = data[:batch_size * num_step]
      data = data.reshape(batch_size, num_step)
      return data
  \<close>
  The random offsets are a parameter: pass \<open>i\<close> starts at \<open>draw i mod data_len\<close>.
  \<open>randint(0, 0)\<close> raises \<open>ValueError\<close>.
\<close>

definition batchify :: "int list \<Rightarrow> nat \<Rightarrow> nat \<Rightarrow> (nat \<Rightarrow> nat) \<Rightarrow> error + int list list" where
  "batchify data bsz num_passes draw =
     (if num_passes > 1 \<and> length data = 0 then Inl ValueError
      else
        (let data' = (if num_passes > 1
               then concat (map (\<lambda>i. take (length data)
                                  (drop (draw i mod length data) (data @ data)))
                             [0..<num_passes])
               else data)
         in if bsz = 0 then Inl ZeroDivisionError
            else (let num_step = length data' div bsz
                  in Inr (map (\<lambda>r. take num_step (drop (r * num_step) data')) [0..<bsz]))))"

text \<open>
  \<open>py_range0 stop step\<close> is \<^verbatim>\<open>range(0, stop, step)\<close> for a positive step. The two
  loops of \<^verbatim>\<open>create_ordered_tfrecords\<close> carry the records written so far, the
  counters and the number of batches; an exception leaves the records written
  before it.
  \<^verbatim>\<open>
  batched_data = batchify(data, batch_size, num_passes)
  num_batch = 0
  for t in range(0, batched_data.shape[1] - 1, tgt_len):
      cur_tgt_len = min(batched_data.shape[1] - 1 - t, tgt_len)
      # drop the remainder if use tpu
      if use_tpu and cur_tgt_len < tgt_len:
          break
      for idx in range(batch_size):
          inputs = batched_data[idx, t:t + cur_tgt_len]
          labels = batched_data[idx, t + 1:t + cur_tgt_len + 1]
          ...
          record_writer.write(example.SerializeToString())
      num_batch += 1
  \<close>
\<close>

definition py_range0 :: "nat \<Rightarrow> nat \<Rightarrow> nat list" where
  "py_range0 stop step = map (\<lambda>k. k * step) [0..<(stop + step - 1) div step]"

fun write_rows :: "config \<Rightarrow> int list list \<Rightarrow> nat \<Rightarrow> nat \<Rightarrow> nat list
    \<Rightarrow> example list \<times> int list \<times> int list
    \<Rightarrow> example list \<times> (error + int list \<times> int list)" where
  "write_rows cfg batched t cur [] (recs, cnts) = (recs, Inr cnts)"
| "write_rows cfg batched t cur (idx # idxs) (recs, cnts) =
     (let inps = take cur (drop t (batched ! idx));
          labs = take cur (drop (t + 1) (batched ! idx))
      in case encode_example cfg idx inps labs cnts of
           Inl e \<Rightarrow> (recs, Inl e)
         | Inr (ex, cnts') \<Rightarrow> write_rows cfg batched t cur idxs (recs @ [ex], cnts'))"

fun write_batches :: "config \<Rightarrow> int list list \<Rightarrow> nat \<Rightarrow> nat list
    \<Rightarrow> example list \<times> (int list \<times> int list) \<times> nat
    \<Rightarrow> example list \<times> (error + nat)" where
  "write_batches cfg batched width [] (recs, cnts, num_batch) = (recs, Inr num_batch)"
| "write_batches cfg batched width (t # ts) (recs, cnts, num_batch) =
     (let cur_tgt_len = min (width - 1 - t) (tgt_len cfg)
      in if use_tpu cfg \<and> cur_tgt_len < tgt_len cfg then (recs, Inr num_batch)
         else (case write_rows cfg batched t cur_tgt_len [0..<batch_size cfg] (recs, cnts) of
                 (recs', Inl e) \<Rightarrow> (recs', Inl e)
               | (recs', Inr cnts') \<Rightarrow>
                   write_batches cfg batched width ts (recs', cnts', num_batch + 1)))"

definition create_ordered_tfrecords :: "config \<Rightarrow> int list \<Rightarrow> nat \<Rightarrow> (nat \<Rightarrow> nat)
    \<Rightarrow> example list \<times> (error + nat)" where
  "create_ordered_tfrecords cfg data num_passes draw =
     (case batchify data (batch_size cfg) num_passes draw of
        Inl e \<Rightarrow> ([], Inl e)
      | Inr batched \<Rightarrow>
          (let width = length (batched ! 0)
           in if tgt_len cfg = 0 then ([], Inl ValueError)
              else write_batches cfg batched width (py_range0 (width - 1) (tgt_len cfg))
                     ([], ([], []), 0)))"

text \<open>
  Two closed forms used in the proofs: what the inner loop of
  \<^verbatim>\<open>_add_perm_feature\<close> emits for one bucket (the first positions, as many as the
  capacity left, with consecutive slots from the counter on), and the effect of
  one tail bucket on \<open>head_labels\<close>.
\<close>

definition spec_tuples :: "nat list \<Rightarrow> int \<Rightarrow> int \<Rightarrow> (int \<times> int) list" where
  "spec_tuples pos c bin_size =
     (let n = min (length pos) (nat (bin_size - c))
      in zip (map int (take n pos)) (map (\<lambda>k. c + int k) [0..<n]))"

definition relabel :: "int list \<Rightarrow> int list \<Rightarrow> nat \<times> int \<times> int \<Rightarrow> int list \<Rightarrow> int list" where
  "relabel cs labs bin h =
     (case bin of (b, left, right) \<Rightarrow>
        set_positions h (np_where (in_range left right) labs) (cs ! 1 + int b))"

subsection \<open>AdaptiveOutputLayer\<close>

text \<open>
  Float tensors are tensors of reals. The two leading axes \<open>[len, bsz]\<close> of
  \<open>hidden\<close>, \<open>target\<close>, \<open>head_target\<close> and the permutation tensors are one axis
  of positions here: the einsums sum over both, the softmax runs over the last
  axis and the reductions run over everything, so nothing depends on how the
  positions are laid out. \<open>hidden\<close> is the list of its rows.

  Two places of the float arithmetic decide which value comes out and are
  modelled as float32 has them. The permutation mode sends the integer label of a
  tail token through a float tensor (\<^verbatim>\<open>tf.to_float(target - l_idx)\<close>, an einsum
  with the 0/1 permutation matrix, \<^verbatim>\<open>tf.to_int32\<close>): \<open>float_round z\<close> is the integer
  that float32 holds for \<open>z\<close>, the nearest number with a significand of 24 bits,
  a tie going to the even significand (the exponent range, \<open>2^128\<close>, is beyond
  every int64). And a loss is a quotient whose divisor may be 0: \<open>truediv\<close> is the
  division of two float scalars, \<open>nan\<close> for \<open>0 / 0\<close> and an infinity for \<open>x / 0\<close>.

  Both functions pick the weights of bucket \<open>i\<close> with the same code (\<open>cur_W\<close>,
  \<open>cur_b\<close>, \<open>cur_proj\<close>, from \<open>params\<close>, \<open>tie_projs\<close>, \<open>div_val\<close> and the variables of
  the scope); the model takes the weights chosen, one \<open>bucket_weights\<close> for each
  bucket, and the variables \<open>cluster_W\<close> and \<open>cluster_b\<close>. With no cutoffs, the
  first entry holds \<open>params_W\<close>, the variable \<open>bias\<close> and \<open>params_projs\<close>.
\<close>

definition float_round :: "int \<Rightarrow> int" where
  "float_round z =
     (let a = \<bar>z\<bar>; n = bitlen a
      in if n \<le> 24 then z
         else (let u = 2 ^ nat (n - 24); q = a div u; r = a mod u;
                   m = (if 2 * r < u \<or> (2 * r = u \<and> even q) then q else q + 1)
               in sgn z * (m * u)))"

definition to_float :: "int \<Rightarrow> real" where
  "to_float z = real_of_int (float_round z)"

datatype loss = Finite real | NaN | PosInf | NegInf

definition truediv :: "real \<Rightarrow> real \<Rightarrow> loss" where
  "truediv x y =
     (if y \<noteq> 0 then Finite (x / y)
      else if x = 0 then NaN else if 0 < x then PosInf else NegInf)"

record bucket_weights =
  cur_W :: "real list list"
  cur_b :: "real list"
  cur_proj :: "real list list option"

text \<open>
  \<^verbatim>\<open>
  def _logit(x, W, b, proj):
      y = x
      if proj is not None:
          y = tf.einsum('ibd,ed->ibe', y, proj)
      return tf.einsum('ibd,nd->ibn', y, W) + b
  \<close>
  for one row \<open>x\<close>. \<open>log_softmax\<close> is \<open>tf.nn.log_softmax\<close> on one row;
  \<open>gather_logprob\<close> is one row of \<^verbatim>\<open>_gather_logprob\<close> (\<open>tf.gather_nd\<close>) and
  \<open>xent\<close> one row of \<open>tf.nn.sparse_softmax_cross_entropy_with_logits\<close>: both fail
  on a label outside the row. \<open>checked_all\<close> collects the rows and fails when one
  of them fails.
\<close>

definition logit :: "real list \<Rightarrow> real list list \<Rightarrow> real list \<Rightarrow> real list list option
    \<Rightarrow> real list" where
  "logit x W b proj =
     (let y = (case proj of None \<Rightarrow> x | Some P \<Rightarrow> map (dot x) P)
      in map2 (\<lambda>row bn. dot y row + bn) W b)"

definition log_softmax :: "real list \<Rightarrow> real list" where
  "log_softmax v = map (\<lambda>x. x - ln (sum_list (map exp v))) v"


definition xent :: "real list \<Rightarrow> int \<Rightarrow> error + real" where
  "xent logits label =
     (if 0 \<le> label \<and> label < int (length logits)
      then Inr (- (log_softmax logits ! nat label))
      else Inl InvalidArgument)"

fun checked_all :: "(error + 'a) list \<Rightarrow> error + 'a list" where
  "checked_all [] = Inr []"
| "checked_all (x # xs) =
     (case x of
        Inl e \<Rightarrow> Inl e
      | Inr v \<Rightarrow> (case checked_all xs of Inl e \<Rightarrow> Inl e | Inr vs \<Rightarrow> Inr (v # vs)))"

text \<open>
  \<^verbatim>\<open>cutoff_ends = [0] + cutoffs + [n_token]\<close>, and the head logits
  \<^verbatim>\<open>
  cur_W = tf.concat([cur_W, cluster_W], 0)
  cur_b = tf.concat([cur_b, cluster_b], 0)
  head_logit = _logit(hidden, cur_W, cur_b, cur_proj)
  \<close>
  \<open>scatter_nd idx updates n\<close> adds \<open>updates\<close> into a zero vector of length \<open>n\<close> at
  the positions \<open>idx\<close>.
\<close>

definition cutoff_ends :: "int \<Rightarrow> int list \<Rightarrow> int list" where
  "cutoff_ends n_token cs = [0] @ cs @ [n_token]"

definition head_logit :: "real list list \<Rightarrow> bucket_weights list \<Rightarrow> real list list \<Rightarrow> real list
    \<Rightarrow> real list list" where
  "head_logit hidden ws cluster_W cluster_b =
     map (\<lambda>h. logit h (cur_W (ws ! 0) @ cluster_W) (cur_b (ws ! 0) @ cluster_b)
                 (cur_proj (ws ! 0))) hidden"


definition reduce_mean :: "real list \<Rightarrow> loss" where
  "reduce_mean xs = truediv (sum_list xs) (real (length xs))"




text \<open>
  A permutation tensor \<open>perms[i]\<close> of a tail bucket is a matrix with a row for each
  position and a column for each slot. \<open>einsum_ib_ibk v perm\<close> is
  \<^verbatim>\<open>tf.einsum('ib,ibk->k', v, perm)\<close>, \<open>einsum_ibd_ibk hidden d perm\<close> is
  \<^verbatim>\<open>tf.einsum('ibd,ibk->kd', hidden, perm)\<close> for rows of width \<open>d\<close>,
  \<open>reduce_sum_01 perm\<close> is \<^verbatim>\<open>tf.reduce_sum(perm, [0, 1])\<close> and \<open>to_int32\<close>
  rounds towards zero. On a column of \<open>perm\<close> that is 0 but for one 1 the float32
  einsum of the labels is exact (it adds one label to zeros), so the label that
  reaches \<open>to_int32\<close> is the \<open>to_float\<close> of the token's.
\<close>

definition einsum_ib_ibk :: "real list \<Rightarrow> real mat \<Rightarrow> real list" where
  "einsum_ib_ibk v perm =
     map (\<lambda>k. sum_list (map (\<lambda>p. v ! p * entry perm p k) [0..<nrows perm])) [0..<ncols perm]"

definition einsum_ibd_ibk :: "real list list \<Rightarrow> nat \<Rightarrow> real mat \<Rightarrow> real list list" where
  "einsum_ibd_ibk hidden d perm =
     map (\<lambda>k. map (\<lambda>j. sum_list (map (\<lambda>p. hidden ! p ! j * entry perm p k) [0..<nrows perm]))
                 [0..<d]) [0..<ncols perm]"

definition reduce_sum_01 :: "real mat \<Rightarrow> real list" where
  "reduce_sum_01 perm =
     map (\<lambda>k. sum_list (map (\<lambda>p. entry perm p k) [0..<nrows perm])) [0..<ncols perm]"

definition to_int32 :: "real \<Rightarrow> int" where
  "to_int32 x = (if 0 \<le> x then \<lfloor>x\<rfloor> else \<lceil>x\<rceil>)"

text \<open>
  One pass \<open>i \<ge> 1\<close> of the loop of \<^verbatim>\<open>mul_adaptive_logsoftmax\<close>, giving what it
  adds to \<open>total_loss\<close> and to \<open>total_cnt\<close>. The list \<open>perms\<close> of the model is
  \<open>perms[1:]\<close> and \<open>perm0\<close> is \<open>perms[0]\<close>, the mask of the head bucket.
  \<^verbatim>\<open>
  cur_head_nll = tf.einsum('ib,ibk->k', head_nll, perms[i])
  cur_hidden = tf.einsum('ibd,ibk->kd', hidden, perms[i])
  tail_logit = _logit(cur_hidden, cur_W, cur_b, cur_proj)
  tail_target = tf.einsum('ib,ibk->k', tf.to_float(target - l_idx), perms[i])
  tail_nll = tf.nn.sparse_softmax_cross_entropy_with_logits(
      labels=tf.to_int32(tail_target), logits=tail_logit)
  sum_nll = cur_head_nll + tail_nll
  mask = tf.reduce_sum(perms[i], [0, 1])
  masked_loss = sum_nll * mask
  total_loss += tf.reduce_sum(masked_loss)
  total_cnt += tf.reduce_sum(mask)
  \<close>
  and the whole function, with the head bucket
  \<^verbatim>\<open>
  head_nll = tf.nn.sparse_softmax_cross_entropy_with_logits(
      labels=head_target, logits=head_logit)
  masked_loss = head_nll * perms[i]
  total_loss += tf.reduce_sum(masked_loss)
  total_cnt += tf.reduce_sum(perms[i])
  ...
  nll = total_loss / total_cnt
  \<close>
\<close>

definition mul_bucket :: "real list list \<Rightarrow> nat \<Rightarrow> int list \<Rightarrow> int list \<Rightarrow> bucket_weights list
    \<Rightarrow> real list \<Rightarrow> real mat list \<Rightarrow> nat \<Rightarrow> error + real \<times> real" where
  "mul_bucket hidden d_proj target ends ws head_nll perms i =
     (if length perms < i then Inl IndexError
      else
        (let l_idx = ends ! i;
             perm = perms ! (i - 1);
             cur_head_nll = einsum_ib_ibk head_nll perm;
             cur_hidden = einsum_ibd_ibk hidden d_proj perm;
             tail_logit = map (\<lambda>h. logit h (cur_W (ws ! i)) (cur_b (ws ! i)) (cur_proj (ws ! i)))
                            cur_hidden;
             tail_target = einsum_ib_ibk (map (\<lambda>t. to_float (t - l_idx)) target) perm
         in case checked_all (map2 (\<lambda>lg t. xent lg (to_int32 t)) tail_logit tail_target) of
              Inl e \<Rightarrow> Inl e
            | Inr tail_nll \<Rightarrow>
                (let sum_nll = map2 (+) cur_head_nll tail_nll;
                     mask = reduce_sum_01 perm;
                     masked_loss = map2 (*) sum_nll mask
                 in Inr (sum_list masked_loss, sum_list mask))))"

definition mul_adaptive_logsoftmax :: "real list list \<Rightarrow> nat \<Rightarrow> int list \<Rightarrow> int \<Rightarrow> int list
    \<Rightarrow> bucket_weights list \<Rightarrow> real list list \<Rightarrow> real list \<Rightarrow> real list \<Rightarrow> real mat list
    \<Rightarrow> int list \<Rightarrow> error + loss" where
  "mul_adaptive_logsoftmax hidden d_proj target n_token cs ws cluster_W cluster_b
       perm0 perms head_target =
     (if length cs = 0 then
        (case checked_all (map2 (\<lambda>h t. xent (logit h (cur_W (ws ! 0)) (cur_b (ws ! 0))
                                          (cur_proj (ws ! 0))) t) hidden target) of
           Inl e \<Rightarrow> Inl e
         | Inr nll \<Rightarrow> Inr (reduce_mean nll))
      else
        (let ends = cutoff_ends n_token cs
         in case checked_all (map2 xent (head_logit hidden ws cluster_W cluster_b) head_target) of
              Inl e \<Rightarrow> Inl e
            | Inr head_nll \<Rightarrow>
                (let masked_loss = map2 (*) head_nll perm0
                 in case checked_all (map (mul_bucket hidden d_proj target ends ws head_nll perms)
                                        [1..<length ends - 1]) of
                      Inl e \<Rightarrow> Inl e
                    | Inr parts \<Rightarrow>
                        (let total_loss = fold (\<lambda>(l, c) acc. acc + l) parts (0 + sum_list masked_loss);
                             total_cnt = fold (\<lambda>(l, c) acc. acc + c) parts (0 + sum_list perm0)
                         in Inr (truediv total_loss total_cnt)))))"

text \<open>
  What the theorems ask of the inputs. \<open>weights_shaped\<close>: bucket \<open>i\<close> has a weight
  row and a bias for each of its \<open>r_idx - l_idx\<close> tokens, and there is a cluster
  row for each tail bucket. \<open>perm_valid\<close>: the matrix has a row for each position,
  entries 0 or 1, at most one 1 in a column (a slot holds one token) and in a row,
  and a 1 only in the rows of tokens of the bucket. \<open>row_sum perm p\<close> says whether
  position \<open>p\<close> was given a slot, \<open>routed\<close> is this indicator for a tail bucket and
  the head mask for bucket 0, and \<open>in_bucket\<close> is the indicator of the tokens of a
  bucket.

  \<open>labels_kept\<close>: the label of every token with a slot, as float32 holds it, is a
  label of the bucket (a label at or beyond the width of the bucket makes the
  cross-entropy fail).

  \<open>token_nll\<close> is the negative log-probability of the target at a position under
  the two-stage decomposition; \<open>mul_token_nll\<close> is the same with the label
  \<open>head_target\<close> in the head softmax and the tail label as float32 holds it.
\<close>

definition weights_shaped :: "bucket_weights list \<Rightarrow> int list \<Rightarrow> real list list \<Rightarrow> real list
    \<Rightarrow> bool" where
  "weights_shaped ws ends cluster_W cluster_b =
     (length ws = length ends - 1
      \<and> list_all (\<lambda>i. int (length (cur_W (ws ! i))) = ends ! (i + 1) - ends ! i
                      \<and> length (cur_b (ws ! i)) = length (cur_W (ws ! i)))
           [0..<length ends - 1]
      \<and> length cluster_W = length ends - 2 \<and> length cluster_b = length ends - 2)"




definition row_sum :: "real mat \<Rightarrow> nat \<Rightarrow> real" where
  "row_sum perm p = sum_list (map (\<lambda>k. entry perm p k) [0..<ncols perm])"

definition perm_valid :: "real mat \<Rightarrow> int list \<Rightarrow> int \<Rightarrow> int \<Rightarrow> bool" where
  "perm_valid perm target l r =
     (nrows perm = length target
      \<and> list_all (\<lambda>k. list_all (\<lambda>p. entry perm p k = 0 \<or> entry perm p k = 1) [0..<nrows perm]
                      \<and> sum_list (map (\<lambda>p. entry perm p k) [0..<nrows perm]) \<le> 1)
           [0..<ncols perm]
      \<and> list_all (\<lambda>p. row_sum perm p \<le> (if in_range l r (target ! p) then 1 else 0))
           [0..<nrows perm])"

definition tail_nll_at :: "real list list \<Rightarrow> int list \<Rightarrow> int list \<Rightarrow> bucket_weights list
    \<Rightarrow> nat \<Rightarrow> nat \<Rightarrow> real" where
  "tail_nll_at hidden target ends ws i p =
     - (log_softmax (logit (hidden ! p) (cur_W (ws ! i)) (cur_b (ws ! i)) (cur_proj (ws ! i)))
          ! nat (float_round (target ! p - ends ! i)))"

definition labels_kept :: "real mat \<Rightarrow> int list \<Rightarrow> int \<Rightarrow> int \<Rightarrow> bool" where
  "labels_kept perm target l r =
     list_all (\<lambda>p. row_sum perm p = 0 \<or> float_round (target ! p - l) < r - l)
       [0..<length target]"

definition routed :: "real list \<Rightarrow> real mat list \<Rightarrow> nat \<Rightarrow> nat \<Rightarrow> real" where
  "routed perm0 perms i p = (if i = 0 then perm0 ! p else row_sum (perms ! (i - 1)) p)"

definition mul_token_nll :: "real list list \<Rightarrow> int list \<Rightarrow> int list \<Rightarrow> int list
    \<Rightarrow> bucket_weights list \<Rightarrow> real list list \<Rightarrow> real list \<Rightarrow> nat \<Rightarrow> nat \<Rightarrow> real" where
  "mul_token_nll hidden target head_target ends ws cluster_W cluster_b i p =
     (let head_nll = - (log_softmax (head_logit hidden ws cluster_W cluster_b ! p)
                          ! nat (head_target ! p))
      in if i = 0 then head_nll else head_nll + tail_nll_at hidden target ends ws i p)"

section \<open>Properties\<close>

subsection \<open>Nearest-to-eight rounding\<close>

text \<open>
  C6. For every non-negative integer \<open>x\<close>, the rounding returns a multiple of 8 that
  is at least 8: it rounds \<open>x\<close> up to the next multiple of 8 when \<open>x % 8 \<ge> 4\<close>, and
  down to the multiple of 8 below (but never under 8) otherwise. In particular
  \<open>round8(12) = 16\<close>, \<open>round8(8) = 8\<close>, \<open>round8(3) = 8\<close> and \<open>round8(20) = 24\<close>.
\<close>

theorem nearest_to_eight_rounds:
  assumes "0 \<le> x"
  shows "8 dvd nearest_to_eight x \<and> 8 \<le> nearest_to_eight x
     \<and> nearest_to_eight x =
           (if x mod 8 \<ge> 4 then 8 * (x div 8) + 8 else max 8 (8 * (x div 8)))
     \<and> nearest_to_eight 12 = 16 \<and> nearest_to_eight 8 = 8
     \<and> nearest_to_eight 3 = 8 \<and> nearest_to_eight 20 = 24"
proof -
  have y: "x - x mod 8 = 8 * (x div 8)"
    by (simp add: minus_mod_eq_mult_div)
  have eq: "nearest_to_eight x =
           (if x mod 8 \<ge> 4 then 8 * (x div 8) + 8 else max 8 (8 * (x div 8)))"
    by (simp add: nearest_to_eight_def Let_def y)
  then have dv: "8 dvd nearest_to_eight x"
    by (simp add: max_def)
  from assms have "0 \<le> x div 8"
    by (simp add: pos_imp_zdiv_nonneg_iff)
  then have ge: "8 \<le> nearest_to_eight x"
    by (simp add: nearest_to_eight_def Let_def y)
  have ex: "nearest_to_eight 12 = 16 \<and> nearest_to_eight 8 = 8
           \<and> nearest_to_eight 3 = 8 \<and> nearest_to_eight 20 = 24"
    by (simp add: nearest_to_eight_def Let_def)
  from dv ge eq ex show ?thesis by blast
qed

theorem nearest_to_eight_rounds_witness:
  "(0::int) \<le> 20 \<and> 8 dvd nearest_to_eight 20 \<and> 8 \<le> nearest_to_eight 20
     \<and> nearest_to_eight 20 = 24"
  using nearest_to_eight_rounds [of 20] by simp

subsection \<open>Memory update\<close>

lemma slice_from_neg:
  "0 < m \<Longrightarrow> slice_from (- m) xs = drop (length xs - nat m) xs"
  by (simp add: slice_from_def nat_diff_distrib')

text \<open>
  C2, as the specification states it: for every \<open>mem_len > 0\<close> and every previous
  memory, the empty one included, the memory that \<open>_cache_mem\<close> returns is the last
  \<open>mem_len\<close> rows of the previous memory followed by the current output (exactly 5
  rows, the last 5 of 7, with \<open>mem_len = 5\<close> and an empty previous memory), and with
  \<open>mem_len = 0\<close> it is the previous memory. \<^verbatim>\<open>transformer\<close> takes \<open>mems=None\<close> for a memory
  of length 0 and hands \<open>None\<close> to \<open>_cache_mem\<close>, whose guard returns the current output
  whole: with \<open>mem_len = 5\<close> all 7 rows and not the last 5, with \<open>mem_len = 0\<close> the 3
  rows of the output and not a memory of no rows.
\<close>

theorem cache_mem_absent_memory:
  "cache_mem [11, 12, 13, 14, 15, 16, 17 :: int] None (Some 5) = [11, 12, 13, 14, 15, 16, 17]
   \<and> length (cache_mem [11, 12, 13, 14, 15, 16, 17 :: int] None (Some 5)) \<noteq> 5
   \<and> cache_mem [11, 12, 13, 14, 15, 16, 17 :: int] None (Some 5) \<noteq> [13, 14, 15, 16, 17]
   \<and> cache_mem [21, 22, 23 :: int] None (Some 0) = [21, 22, 23]
   \<and> cache_mem [21, 22, 23 :: int] None (Some 0) \<noteq> []"
  by (simp add: cache_mem_def)

text \<open>
  C2, amended: when the previous memory is a tensor (\<open>prev_mem\<close> is not \<open>None\<close>; it may
  have no rows), for every \<open>mem_len > 0\<close> and every current output the memory that
  \<open>_cache_mem\<close> returns is the last \<open>mem_len\<close> rows of the previous memory followed by
  the current output: with \<open>mem_len = 5\<close>, a previous memory of no rows and 7 new
  hidden states it has exactly 5 rows, the last 5 of the 7. With \<open>mem_len = 0\<close> it is
  the previous memory, unchanged, whatever the current output. When \<open>prev_mem\<close> is
  \<open>None\<close> the guard \<^verbatim>\<open>mem_len is None or prev_mem is None\<close> returns the current output
  whole, for every \<open>mem_len\<close>.
\<close>

theorem cache_mem_last_rows:
  "(0 < m \<longrightarrow>
      cache_mem out (Some prev) (Some m)
        = drop (length (prev @ out) - nat m) (prev @ out))
   \<and> (length out = 7 \<longrightarrow>
        length (cache_mem out (Some []) (Some 5)) = 5
        \<and> cache_mem out (Some []) (Some 5) = drop 2 out)
   \<and> cache_mem out (Some prev) (Some 0) = prev
   \<and> cache_mem out None (Some m) = out"
  by (simp add: cache_mem_def slice_from_neg)

theorem cache_mem_last_rows_witness:
  "(0::int) < 2 \<and> length [10, 20, 30, 40, 50, 60, 70 :: int] = 7
   \<and> cache_mem [3, 4, 5 :: int] (Some [1, 2]) (Some 2) = [4, 5]
   \<and> cache_mem [10, 20, 30, 40, 50, 60, 70 :: int] (Some []) (Some 5) = [30, 40, 50, 60, 70]
   \<and> cache_mem [3, 4, 5 :: int] (Some [1, 2]) (Some 0) = [1, 2]
   \<and> cache_mem [3, 4, 5 :: int] None (Some 2) = [3, 4, 5]"
  using cache_mem_last_rows [of 2 "[3, 4, 5 :: int]" "[1, 2]"]
    cache_mem_last_rows [of 2 "[10, 20, 30, 40, 50, 60, 70 :: int]" "[1, 2]"]
  by simp

text \<open>
  C9, as the specification states it: after every memory update, the very first
  segment included (no previous memory), a layer's memory has at most \<open>mem_len\<close>
  rows. On the first segment \<open>prev_mem\<close> is \<open>None\<close> and \<open>_cache_mem\<close> returns the
  whole current output: 7 rows with \<open>mem_len = 5\<close>.
\<close>

theorem cache_mem_unbounded_first_segment:
  "cache_mem [1, 2, 3, 4, 5, 6, 7 :: int] None (Some 5) = [1, 2, 3, 4, 5, 6, 7]
   \<and> \<not> length (cache_mem [1, 2, 3, 4, 5, 6, 7 :: int] None (Some 5)) \<le> 5
   \<and> new_mems [[1, 2, 3, 4, 5, 6, 7 :: int]] None 1 (Some 5) = Inr [[1, 2, 3, 4, 5, 6, 7]]"
  by (simp add: cache_mem_def new_mems_def)

text \<open>
  C9, amended: when a previous memory is present, an update with \<open>mem_len > 0\<close>
  leaves at most \<open>mem_len\<close> rows, and an update with \<open>mem_len = 0\<close> leaves the rows of
  the previous memory; so a memory within the bound stays within it. With no
  previous memory the new memory is the current output, of any length.
\<close>

theorem cache_mem_bounded:
  assumes "0 \<le> m" and "0 < m \<or> length prev \<le> nat m"
  shows "length (cache_mem out (Some prev) (Some m)) \<le> nat m
     \<and> length (cache_mem out (Some prev) (Some m))
          = (if m = 0 then length prev else min (nat m) (length prev + length out))
     \<and> cache_mem out None (Some m) = out"
  using assms by (auto simp add: cache_mem_def slice_from_neg)

theorem cache_mem_bounded_witness:
  "(0::int) \<le> 5 \<and> ((0::int) < 5 \<or> length [1, 2, 3 :: int] \<le> nat 5)
   \<and> length (cache_mem [4, 5, 6, 7 :: int] (Some [1, 2, 3]) (Some 5)) \<le> nat 5
   \<and> cache_mem [4, 5, 6, 7 :: int] (Some [1, 2, 3]) (Some 5) = [3, 4, 5, 6, 7]"
  using cache_mem_bounded [of 5 "[1, 2, 3 :: int]" "[4, 5, 6, 7]"]
  by (simp add: cache_mem_def slice_from_def)

subsection \<open>Attention mask\<close>

lemma nrows_mat_of [simp]: "nrows (mat_of r c f) = r"
  and ncols_mat_of [simp]: "ncols (mat_of r c f) = c"
  by (simp_all add: mat_of_def)

lemma flat_index_less: "i < r \<Longrightarrow> j < c \<Longrightarrow> i * c + j < r * (c::nat)"
proof -
  assume a: "i < r" "j < c"
  then have "i * c + j < Suc i * c" by simp
  also from a have "\<dots> \<le> r * c" by (intro mult_le_mono1) simp
  finally show ?thesis .
qed

lemma entry_mat_of [simp]: "i < r \<Longrightarrow> j < c \<Longrightarrow> entry (mat_of r c f) i j = f i j"
  by (simp add: entry_def mat_of_def flat_index_less)

lemma shape_simps [simp]:
  "nrows (ones r c) = r" "ncols (ones r c) = c"
  "nrows (zeros r c) = r" "ncols (zeros r c) = c"
  "nrows (matrix_band_part m lo hi) = nrows m" "ncols (matrix_band_part m lo hi) = ncols m"
  "nrows (concat1 a b) = nrows a" "ncols (concat1 a b) = ncols a + ncols b"
  "nrows (cols_upto a k) = nrows a" "ncols (cols_upto a k) = min k (ncols a)"
  "nrows (cols_from a k) = nrows a" "ncols (cols_from a k) = ncols a - k"
  "nrows (mat_add x y) = nrows x" "ncols (mat_add x y) = ncols x"
  "nrows (mat_sub x y) = nrows x" "ncols (mat_sub x y) = ncols x"
  by (simp_all add: ones_def zeros_def matrix_band_part_def concat1_def cols_upto_def
      cols_from_def mat_add_def mat_sub_def)

lemma create_mask_shape:
  "nrows (create_mask qlen mlen sl) = qlen \<and> ncols (create_mask qlen mlen sl) = mlen + qlen"
  by (simp add: create_mask_def Let_def)

lemma create_mask_plain:
  assumes "i < qlen" "j < mlen + qlen"
  shows "entry (create_mask qlen mlen False) i j = (if int j - int mlen > int i then 1 else 0)"
  using assms
  by (auto simp add: create_mask_def Let_def concat1_def mat_sub_def matrix_band_part_def
      ones_def zeros_def)

lemma create_mask_same:
  assumes "i < qlen" "j < mlen + qlen"
  shows "entry (create_mask qlen mlen True) i j
           = (if int j - int mlen > int i \<or> j < i then 1 else 0)"
  using assms
  by (auto simp add: create_mask_def Let_def concat1_def mat_sub_def mat_add_def
      matrix_band_part_def cols_upto_def cols_from_def ones_def zeros_def)

text \<open>
  C7. For \<open>qlen \<ge> 1\<close> and \<open>mlen \<ge> 0\<close>, the mask of \<open>_create_mask\<close> with
  \<open>same_length=False\<close> is 0 at \<open>(i, j)\<close> exactly when \<open>j\<close> is a memory column
  (\<open>j < mlen\<close>) or a column of the current segment no later than \<open>i\<close>
  (\<open>j - mlen \<le> i\<close>), and 1 exactly when \<open>j - mlen > i\<close>: no query attends to a later
  position. With \<open>same_length=True\<close> the columns \<open>j < i\<close>, those more than \<open>mlen\<close>
  positions behind query \<open>i\<close> (which sits at column \<open>mlen + i\<close>), are masked as well:
  the zeros are the band \<open>i \<le> j \<le> i + mlen\<close>.
\<close>

theorem create_mask_causal:
  assumes "1 \<le> qlen" and "i < qlen" and "j < mlen + qlen"
  shows "nrows (create_mask qlen mlen sl) = qlen
     \<and> ncols (create_mask qlen mlen sl) = mlen + qlen
     \<and> entry (create_mask qlen mlen False) i j
          = (if j < mlen \<or> int j - int mlen \<le> int i then 0 else 1)
     \<and> (entry (create_mask qlen mlen False) i j = 1) = (int j - int mlen > int i)
     \<and> entry (create_mask qlen mlen True) i j
          = (if int j - int mlen > int i \<or> j < i then 1 else 0)
     \<and> (entry (create_mask qlen mlen True) i j = 0) = (i \<le> j \<and> j \<le> i + mlen)"
  using assms create_mask_shape [of qlen mlen sl] create_mask_plain [of i qlen j mlen]
    create_mask_same [of i qlen j mlen]
  by auto

theorem create_mask_causal_witness:
  "(1::nat) \<le> 3 \<and> (1::nat) < 3 \<and> (4::nat) < 2 + 3
   \<and> entry (create_mask 3 2 False) 1 4 = 1
   \<and> entry (create_mask 3 2 True) 1 4 = 1
   \<and> ncols (create_mask 3 2 True) = 5"
  using create_mask_causal [of 3 1 4 2 True] by simp

subsection \<open>Relative shift\<close>

lemma length_elems_mat_of [simp]: "length (elems (mat_of r c f)) = r * c"
  by (simp add: mat_of_def)

lemma wf_mat_of [simp]: "wf_mat (mat_of r c f)"
  by (simp add: wf_mat_def)

lemma elems_mat_of_nth:
  "k < r * c \<Longrightarrow> elems (mat_of r c f) ! k = f (k div c) (k mod c)"
  by (simp add: mat_of_def)

lemma rel_shift_Inr:
  "rel_shift x = Inr \<lparr>nrows = nrows x, ncols = ncols x,
      elems = drop (nrows x) (elems (pad_front1 x))\<rparr>"
  by (simp add: rel_shift_def Let_def reshape_def slice_rows_from1_def pad_front1_def
      algebra_simps)

lemma divmod_flat: "k < (n::nat) \<Longrightarrow> (i * n + k) div n = i \<and> (i * n + k) mod n = k"
  by simp

lemma shift_index:
  assumes "i < (r::nat)" "j + r \<le> c + i"
  shows "(r + i * c + j) div (c + 1) = i \<and> (r + i * c + j) mod (c + 1) = r - i + j"
proof -
  have "i * (c + 1) = i * c + i" by simp
  then have e: "r + i * c + j = i * (c + 1) + (r - i + j)"
    using assms by linarith
  have l: "r - i + j < c + 1" using assms by simp
  show ?thesis unfolding e by (rule divmod_flat [OF l])
qed

lemma rel_shift_entry:
  assumes "i < nrows x" "j < ncols x" "j + nrows x \<le> ncols x + i"
  shows "\<exists>s. rel_shift x = Inr s \<and> nrows s = nrows x \<and> ncols s = ncols x
     \<and> entry s i j = entry x i (j + nrows x - 1 - i)"
proof -
  let ?r = "nrows x" and ?c = "ncols x"
  let ?s = "\<lparr>nrows = ?r, ncols = ?c, elems = drop ?r (elems (pad_front1 x))\<rparr>"
  have lt: "?r + i * ?c + j < ?r * (?c + 1)"
  proof -
    have "i * ?c + j < ?r * ?c" using assms by (simp add: flat_index_less)
    then show ?thesis by simp
  qed
  have "entry ?s i j = elems (pad_front1 x) ! (?r + (i * ?c + j))"
    using lt by (simp add: entry_def pad_front1_def)
  also have "\<dots> = (if (?r + i * ?c + j) mod (?c + 1) = 0 then 0
        else entry x ((?r + i * ?c + j) div (?c + 1)) ((?r + i * ?c + j) mod (?c + 1) - 1))"
    using lt by (simp add: pad_front1_def elems_mat_of_nth add.assoc)
  also have "\<dots> = entry x i (j + ?r - 1 - i)"
    using shift_index [OF assms(1) assms(3)] assms by (simp add: add.commute)
  finally show ?thesis by (simp add: rel_shift_Inr)
qed

lemma pos_seq_nth:
  "j < klen \<Longrightarrow> pos_seq klen clamp_len ! j
     = (let p = int klen - 1 - int j in if clamp_len > 0 then min p clamp_len else p)"
  by (simp add: pos_seq_def)

lemma rel_shift_position_term:
  assumes "i < length q" and "j \<le> i + mlen"
  shows "\<exists>s. rel_shift (position_term q b (map R (pos_seq (mlen + length q) clamp_len))) = Inr s
     \<and> nrows s = length q \<and> ncols s = mlen + length q
     \<and> entry s i j = dot (map2 (+) (q ! i) b)
          (R (let p = int mlen + int i - int j in if clamp_len > 0 then min p clamp_len else p))"
proof -
  let ?klen = "mlen + length q"
  let ?x = "position_term q b (map R (pos_seq ?klen clamp_len))"
  have sh: "nrows ?x = length q" "ncols ?x = ?klen"
    by (simp_all add: position_term_def pos_seq_def)
  have j: "j < ?klen" and j': "j + length q - 1 - i < ?klen" and le: "j + length q \<le> ?klen + i"
    using assms by simp_all
  obtain s where s: "rel_shift ?x = Inr s" "nrows s = nrows ?x" "ncols s = ncols ?x"
    "entry s i j = entry ?x i (j + nrows ?x - 1 - i)"
    using rel_shift_entry [of i ?x j] assms j le unfolding sh by auto
  have "entry ?x i (j + length q - 1 - i)
      = dot (map2 (+) (q ! i) b) (R (pos_seq ?klen clamp_len ! (j + length q - 1 - i)))"
    using assms j' by (simp add: position_term_def pos_seq_def del: upt_Suc)
  moreover have "int ?klen - 1 - int (j + length q - 1 - i) = int mlen + int i - int j"
    using assms by linarith
  moreover have "pos_seq ?klen clamp_len ! (j + length q - 1 - i)
      = (let p = int ?klen - 1 - int (j + length q - 1 - i)
         in if clamp_len > 0 then min p clamp_len else p)"
    using j' by (rule pos_seq_nth)
  ultimately have "entry s i j = dot (map2 (+) (q ! i) b)
          (R (let p = int mlen + int i - int j in if clamp_len > 0 then min p clamp_len else p))"
    using s(4) unfolding sh by (simp only:)
  with s sh show ?thesis by auto
qed

text \<open>
  C3, as the specification states it: after \<open>rel_shift\<close>, any two index pairs with
  the same offset \<open>i - j\<close> have equal position terms. With one head of width 1,
  queries \<open>1\<close> and \<open>2\<close>, no bias and the embeddings \<open>[2]\<close>, \<open>[1]\<close> of the positions
  \<open>1, 0\<close> (\<open>klen = 2\<close>), the shifted terms at \<open>(0, 0)\<close> and \<open>(1, 1)\<close> are \<open>1\<close> and \<open>2\<close>.
\<close>

theorem rel_shift_offset_counterexample:
  "pos_seq 2 (- 1) = [1, 0]
   \<and> position_term [[1], [2]] [0] [[2], [1]] = \<lparr>nrows = 2, ncols = 2, elems = [2, 1, 4, 2]\<rparr>
   \<and> rel_shift (position_term [[1], [2]] [0] [[2], [1]])
        = Inr \<lparr>nrows = 2, ncols = 2, elems = [1, 0, 4, 2]\<rparr>
   \<and> entry \<lparr>nrows = 2, ncols = 2, elems = [1, 0, 4, 2 :: real]\<rparr> 0 0
        \<noteq> entry \<lparr>nrows = 2, ncols = 2, elems = [1, 0, 4, 2 :: real]\<rparr> 1 1"
  by (simp add: pos_seq_def position_term_def rel_shift_def reshape_def slice_rows_from1_def
      pad_front1_def mat_of_def entry_def dot_def Let_def upt_rec numeral_2_eq_2 [symmetric]
      numeral_3_eq_3 [symmetric])

text \<open>
  C3, amended: with \<open>klen = mlen + qlen\<close> and the table indexed from \<open>klen - 1\<close> down
  to 0, \<open>rel_shift\<close> succeeds and, wherever \<open>j \<le> i + mlen\<close> (the entries the causal
  mask keeps), the shifted term at \<open>(i, j)\<close> is the product of query row \<open>i\<close> (plus
  bias) with the embedding of the distance \<open>mlen + i - j\<close>: the embedding depends on
  \<open>i - j\<close> only, the term on the query row as well. Two such pairs with the same
  offset and the same query row have equal terms.
\<close>

theorem rel_shift_relative:
  assumes "i1 < length q" and "j1 \<le> i1 + mlen" and "i2 < length q" and "j2 \<le> i2 + mlen"
    and "int i1 - int j1 = int i2 - int j2" and "q ! i1 = q ! i2"
  shows "\<exists>s. rel_shift (position_term q b (map R (pos_seq (mlen + length q) clamp_len))) = Inr s
     \<and> nrows s = length q \<and> ncols s = mlen + length q
     \<and> entry s i1 j1 = dot (map2 (+) (q ! i1) b)
          (R (let p = int mlen + int i1 - int j1 in if clamp_len > 0 then min p clamp_len else p))
     \<and> entry s i1 j1 = entry s i2 j2"
proof -
  let ?x = "position_term q b (map R (pos_seq (mlen + length q) clamp_len))"
  obtain s where s: "rel_shift ?x = Inr s" "nrows s = length q" "ncols s = mlen + length q"
    "entry s i1 j1 = dot (map2 (+) (q ! i1) b)
          (R (let p = int mlen + int i1 - int j1 in if clamp_len > 0 then min p clamp_len else p))"
    using rel_shift_position_term [OF assms(1,2), of b R clamp_len] by blast
  obtain s' where s': "rel_shift ?x = Inr s'"
    "entry s' i2 j2 = dot (map2 (+) (q ! i2) b)
          (R (let p = int mlen + int i2 - int j2 in if clamp_len > 0 then min p clamp_len else p))"
    using rel_shift_position_term [OF assms(3,4), of b R clamp_len] by blast
  from s(1) s'(1) have "s' = s" by simp
  moreover have "int mlen + int i1 - int j1 = int mlen + int i2 - int j2"
    using assms(5) by simp
  ultimately have "entry s i1 j1 = entry s i2 j2"
    using s(4) s'(2) assms(6) by (simp only:)
  with s show ?thesis by blast
qed

theorem rel_shift_relative_witness:
  "(0::nat) < length [[3], [3 :: real]] \<and> (0::nat) \<le> 0 + 0
   \<and> (1::nat) < length [[3], [3 :: real]] \<and> (1::nat) \<le> 1 + 0
   \<and> int 0 - int 0 = int 1 - int 1 \<and> [[3], [3 :: real]] ! 0 = [[3], [3]] ! 1
   \<and> (\<exists>s. rel_shift (position_term [[3], [3]] [0] (map (\<lambda>p. [real_of_int p + 1]) (pos_seq 2 (- 1))))
            = Inr s
        \<and> entry s 0 0 = 3 \<and> entry s 0 0 = entry s 1 1)"
  using rel_shift_relative [of 0 "[[3], [3]]" 0 0 1 1 "[0]" "\<lambda>p. [real_of_int p + 1]" "- 1"]
  by (auto simp add: dot_def numeral_2_eq_2)

subsection \<open>Permutation encoder\<close>

lemma scan_pos_eq:
  assumes "b < length cnts" and "b < length sizes"
  shows "scan_pos pos b sizes cnts acc =
     (let n = min (length pos) (nat (sizes ! b - cnts ! b))
      in Inr (acc @ zip (map int (take n pos)) (map (\<lambda>k. cnts ! b + int k) [0..<n]),
              cnts[b := cnts ! b + int n]))"
  using assms
proof (induction pos arbitrary: cnts acc)
  case Nil
  then show ?case by simp
next
  case (Cons p ps)
  show ?case
  proof (cases "cnts ! b < sizes ! b")
    case False
    then have "nat (sizes ! b - cnts ! b) = 0" by simp
    with False Cons.prems show ?thesis by (simp add: Let_def)
  next
    case True
    let ?c = "cnts ! b"
    let ?cnts = "cnts[b := ?c + 1]"
    let ?n' = "min (length ps) (nat (sizes ! b - ?c - 1))"
    have n: "min (length (p # ps)) (nat (sizes ! b - ?c)) = Suc ?n'"
      using True by (simp add: min_def) linarith
    have upt: "[0..<Suc ?n'] = 0 # map Suc [0..<?n']"
      by (simp add: upt_conv_Cons map_Suc_upt del: upt_Suc)
    have "scan_pos (p # ps) b sizes cnts acc
        = scan_pos ps b sizes ?cnts (acc @ [(int p, ?c)])"
      using True Cons.prems by simp
    also have "\<dots> = Inr ((acc @ [(int p, ?c)])
          @ zip (map int (take ?n' ps)) (map (\<lambda>k. ?c + 1 + int k) [0..<?n']),
         ?cnts[b := ?c + 1 + int ?n'])"
      using Cons.IH [of ?cnts "acc @ [(int p, ?c)]"] Cons.prems
      by (simp add: Let_def algebra_simps)
    also have "\<dots> = Inr (acc @ zip (map int (take (Suc ?n') (p # ps)))
          (map (\<lambda>k. ?c + int k) [0..<Suc ?n']), cnts[b := ?c + int (Suc ?n')])"
      unfolding upt by (simp add: o_def algebra_simps)
    finally show ?thesis unfolding Let_def n .
  qed
qed

lemma length_spec_tuples:
  "length (spec_tuples pos c bin_size) = min (length pos) (nat (bin_size - c))"
  by (simp add: spec_tuples_def Let_def)

lemma scan_pos_spec:
  assumes "b < length cnts" and "b < length sizes"
  shows "scan_pos pos b sizes cnts [] =
     Inr (spec_tuples pos (cnts ! b) (sizes ! b),
          cnts[b := cnts ! b + int (length (spec_tuples pos (cnts ! b) (sizes ! b)))])"
  using scan_pos_eq [OF assms, of pos "[]"]
  by (simp add: spec_tuples_def Let_def)

lemma add_perm_feature_spec:
  assumes "length cnts = length sizes" and "b0 + length ppb \<le> length sizes"
  shows "\<exists>feats cnts'. add_perm_feature ppb b0 sizes cnts = Inr (feats, cnts')
     \<and> length feats = length ppb \<and> length cnts' = length cnts
     \<and> (\<forall>k < length ppb.
          feats ! k = (length (spec_tuples (ppb ! k) (cnts ! (b0 + k)) (sizes ! (b0 + k))),
                       flatten_tuples (spec_tuples (ppb ! k) (cnts ! (b0 + k)) (sizes ! (b0 + k))))
          \<and> cnts' ! (b0 + k) = cnts ! (b0 + k)
               + int (length (spec_tuples (ppb ! k) (cnts ! (b0 + k)) (sizes ! (b0 + k)))))
     \<and> (\<forall>b < b0. cnts' ! b = cnts ! b)"
  using assms
proof (induction ppb arbitrary: b0 cnts)
  case Nil
  then show ?case by simp
next
  case (Cons pos rest)
  let ?t = "spec_tuples pos (cnts ! b0) (sizes ! b0)"
  let ?cnts1 = "cnts[b0 := cnts ! b0 + int (length ?t)]"
  have b0: "b0 < length cnts" "b0 < length sizes"
    using Cons.prems by simp_all
  have scan: "scan_pos pos b0 sizes cnts [] = Inr (?t, ?cnts1)"
    using scan_pos_spec [OF b0] .
  have len1: "length ?cnts1 = length sizes" using Cons.prems by simp
  have le1: "Suc b0 + length rest \<le> length sizes" using Cons.prems by simp
  obtain feats cnts' where r:
    "add_perm_feature rest (Suc b0) sizes ?cnts1 = Inr (feats, cnts')"
    "length feats = length rest" "length cnts' = length ?cnts1"
    "\<forall>k < length rest.
          feats ! k = (length (spec_tuples (rest ! k) (?cnts1 ! (Suc b0 + k)) (sizes ! (Suc b0 + k))),
                       flatten_tuples (spec_tuples (rest ! k) (?cnts1 ! (Suc b0 + k)) (sizes ! (Suc b0 + k))))
          \<and> cnts' ! (Suc b0 + k) = ?cnts1 ! (Suc b0 + k)
               + int (length (spec_tuples (rest ! k) (?cnts1 ! (Suc b0 + k)) (sizes ! (Suc b0 + k))))"
    "\<forall>b < Suc b0. cnts' ! b = ?cnts1 ! b"
    using Cons.IH [OF len1 le1] by blast
  have same: "?cnts1 ! (Suc b0 + k) = cnts ! (Suc b0 + k)" for k
    by simp
  let ?feats = "(length ?t, flatten_tuples ?t) # feats"
  have res: "add_perm_feature (pos # rest) b0 sizes cnts = Inr (?feats, cnts')"
    using scan r(1) by simp
  have "\<forall>k < length (pos # rest).
          ?feats ! k = (length (spec_tuples ((pos # rest) ! k) (cnts ! (b0 + k)) (sizes ! (b0 + k))),
                       flatten_tuples (spec_tuples ((pos # rest) ! k) (cnts ! (b0 + k)) (sizes ! (b0 + k))))
          \<and> cnts' ! (b0 + k) = cnts ! (b0 + k)
               + int (length (spec_tuples ((pos # rest) ! k) (cnts ! (b0 + k)) (sizes ! (b0 + k))))"
  proof (intro allI impI)
    fix k assume k: "k < length (pos # rest)"
    show "?feats ! k = (length (spec_tuples ((pos # rest) ! k) (cnts ! (b0 + k)) (sizes ! (b0 + k))),
                       flatten_tuples (spec_tuples ((pos # rest) ! k) (cnts ! (b0 + k)) (sizes ! (b0 + k))))
          \<and> cnts' ! (b0 + k) = cnts ! (b0 + k)
               + int (length (spec_tuples ((pos # rest) ! k) (cnts ! (b0 + k)) (sizes ! (b0 + k))))"
    proof (cases k)
      case 0
      have "cnts' ! b0 = ?cnts1 ! b0" using r(5) by simp
      with 0 b0 show ?thesis by simp
    next
      case (Suc j)
      then have j: "j < length rest" using k by simp
      from r(4) j same [of j] Suc show ?thesis by simp
    qed
  qed
  moreover have "\<forall>b < b0. cnts' ! b = cnts ! b"
    using r(5) by simp
  ultimately show ?case using res r(2,3) by simp
qed

lemma np_where_iff: "p \<in> set (np_where P xs) \<longleftrightarrow> p < length xs \<and> P (xs ! p)"
  by (auto simp add: np_where_def)

lemma length_set_positions [simp]: "length (set_positions xs ps v) = length xs"
  unfolding set_positions_def by (induction ps arbitrary: xs) simp_all

lemma nth_set_positions:
  "i < length xs \<Longrightarrow> set_positions xs ps v ! i = (if i \<in> set ps then v else xs ! i)"
  unfolding set_positions_def
proof (induction ps arbitrary: xs)
  case Nil
  then show ?case by simp
next
  case (Cons p ps)
  have l: "i < length (xs[p := v])" using Cons.prems by simp
  show ?case
    using Cons.IH [OF l] Cons.prems by (auto simp add: nth_list_update)
qed

lemma fst_fold_bin_step:
  "fst (fold (bin_step cs inps labs) bs (h, ip, tp)) = fold (relabel cs labs) bs h"
  by (induction bs arbitrary: h ip tp)
    (simp_all add: bin_step_def relabel_def Let_def split: prod.splits)

lemma fst_bin_loop: "fst (bin_loop cs inps labs) = fold (relabel cs labs) (tail_bins cs) labs"
  by (simp add: bin_loop_def fst_fold_bin_step)

lemma length_fold_relabel [simp]: "length (fold (relabel cs labs) bs h) = length h"
  by (induction bs arbitrary: h) (simp_all add: relabel_def split: prod.splits)

lemma fold_relabel_unmatched:
  assumes "p < length h"
    and "\<And>b l r. (b, l, r) \<in> set bs \<Longrightarrow> \<not> in_range l r (labs ! p)"
  shows "fold (relabel cs labs) bs h ! p = h ! p"
  using assms
proof (induction bs arbitrary: h)
  case Nil
  then show ?case by simp
next
  case (Cons x bs)
  obtain b l r where x: "x = (b, l, r)" by (cases x) auto
  have no: "\<not> in_range l r (labs ! p)" using Cons.prems(2) [of b l r] x by simp
  have "fold (relabel cs labs) bs (relabel cs labs x h) ! p = relabel cs labs x h ! p"
  proof (rule Cons.IH)
    show "p < length (relabel cs labs x h)"
      using Cons.prems(1) by (simp add: relabel_def x)
    show "\<not> in_range l' r' (labs ! p)" if "(b', l', r') \<in> set bs" for b' l' r'
      using Cons.prems(2) [of b' l' r'] that by simp
  qed
  also have "\<dots> = h ! p"
    using Cons.prems(1) no by (simp add: relabel_def x nth_set_positions np_where_iff)
  finally show ?case by simp
qed

lemma fold_relabel_matched:
  assumes "p < length h" and "p < length labs" and "in_range l r (labs ! p)"
    and "\<And>b' l' r'. (b', l', r') \<in> set ys \<Longrightarrow> \<not> in_range l' r' (labs ! p)"
  shows "fold (relabel cs labs) (xs @ (b, l, r) # ys) h ! p = cs ! 1 + int b"
proof -
  let ?h1 = "fold (relabel cs labs) xs h"
  let ?h2 = "relabel cs labs (b, l, r) ?h1"
  have l2: "p < length ?h2" using assms(1) by (simp add: relabel_def)
  have "fold (relabel cs labs) (xs @ (b, l, r) # ys) h ! p = fold (relabel cs labs) ys ?h2 ! p"
    by simp
  also have "\<dots> = ?h2 ! p"
    using l2 assms(4) by (rule fold_relabel_unmatched)
  also have "\<dots> = cs ! 1 + int b"
    using assms(1-3) by (simp add: relabel_def nth_set_positions np_where_iff)
  finally show ?thesis .
qed

lemma length_tail_bins [simp]: "length (tail_bins cs) = length cs - 2"
  by (simp add: tail_bins_def)

lemma nth_tail_bins:
  assumes "k + 2 < length cs"
  shows "tail_bins cs ! k = (k, cs ! (k + 1), cs ! (k + 2))"
proof -
  have "k < length (zip (butlast (tl cs)) (drop 2 cs))" using assms by simp
  moreover have "butlast (tl cs) ! k = cs ! Suc k"
    using assms by (simp add: nth_butlast nth_tl)
  ultimately show ?thesis
    using assms by (simp add: tail_bins_def nth_enumerate_eq)
qed

lemma in_tail_bins:
  assumes "(b, l, r) \<in> set (tail_bins cs)"
  shows "b + 2 < length cs \<and> l = cs ! (b + 1) \<and> r = cs ! (b + 2)"
proof -
  from assms obtain k where k: "k < length (tail_bins cs)" "tail_bins cs ! k = (b, l, r)"
    by (auto simp add: in_set_conv_nth)
  then have "k + 2 < length cs" by simp
  from nth_tail_bins [OF this] k(2) show ?thesis using \<open>k + 2 < length cs\<close> by simp
qed

lemma head_labels_unchanged:
  assumes "p < length labs"
    and "\<And>b. b + 2 < length cs \<Longrightarrow> \<not> in_range (cs ! (b + 1)) (cs ! (b + 2)) (labs ! p)"
  shows "fst (bin_loop cs inps labs) ! p = labs ! p"
  unfolding fst_bin_loop
  using assms(1)
proof (rule fold_relabel_unmatched)
  fix b l r assume "(b, l, r) \<in> set (tail_bins cs)"
  from in_tail_bins [OF this] assms(2) [of b] show "\<not> in_range l r (labs ! p)" by simp
qed

lemma head_labels_tail:
  assumes "sorted cs" and "p < length labs" and "b + 2 < length cs"
    and "in_range (cs ! (b + 1)) (cs ! (b + 2)) (labs ! p)"
  shows "fst (bin_loop cs inps labs) ! p = cs ! 1 + int b"
proof -
  let ?tb = "tail_bins cs"
  have b: "b < length ?tb" using assms(3) by simp
  have split: "?tb = take b ?tb @ (b, cs ! (b + 1), cs ! (b + 2)) # drop (Suc b) ?tb"
    using id_take_nth_drop [OF b] nth_tail_bins [OF assms(3)] by simp
  have later: "\<not> in_range l' r' (labs ! p)" if "(b', l', r') \<in> set (drop (Suc b) ?tb)" for b' l' r'
  proof -
    from that obtain k where k: "k < length (drop (Suc b) ?tb)" "drop (Suc b) ?tb ! k = (b', l', r')"
      by (auto simp add: in_set_conv_nth)
    then have kk: "Suc b + k + 2 < length cs" by simp
    have "?tb ! (Suc b + k) = (b', l', r')" using k by simp
    with nth_tail_bins [OF kk] have l': "l' = cs ! (Suc b + k + 1)" by auto
    have "cs ! (b + 2) \<le> cs ! (Suc b + k + 1)"
      using assms(1) kk by (intro sorted_nth_mono) simp_all
    with assms(4) l' show ?thesis by (simp add: in_range_def)
  qed
  show ?thesis
    unfolding fst_bin_loop
    by (subst split) (rule fold_relabel_matched [OF assms(2) assms(2) assms(4) later])
qed

lemma head_bucket_not_tail:
  assumes "sorted cs" and "x < cs ! 1" and "b + 2 < length cs"
  shows "\<not> in_range (cs ! (b + 1)) (cs ! (b + 2)) x"
proof -
  have "cs ! 1 \<le> cs ! (b + 1)"
    using assms(1,3) by (intro sorted_nth_mono) simp_all
  with assms(2) show ?thesis by (simp add: in_range_def)
qed

lemma encode_example_bucketed:
  assumes "encode_example cfg idx inps labs cnts = Inr (ex, cnts')" and "bucketed ex = Some bf"
  shows "inputs ex = inps \<and> labels ex = labs
     \<and> head_labels bf = fst (bin_loop (cutoffs cfg) inps labs)"
  using assms
  by (auto simp add: encode_example_def Let_def split: if_splits sum.splits prod.splits)

lemma encode_example_assert:
  assumes "length (cutoffs cfg) > 0" and "use_tpu cfg"
    and "int (length (cutoffs cfg)) - int (length (bin_sizes cfg)) \<noteq> 2"
  shows "encode_example cfg idx inps labs cnts = Inl AssertionError"
  using assms by (simp add: encode_example_def)

lemma write_rows_assert:
  assumes "\<And>idx inps labs cnts. encode_example cfg idx inps labs cnts = Inl AssertionError"
    and "idxs \<noteq> []"
  shows "write_rows cfg batched t cur idxs (recs, cnts) = (recs, Inl AssertionError)"
  using assms by (cases idxs) (simp_all add: Let_def)

lemma write_batches_assert:
  assumes "\<And>idx inps labs cnts. encode_example cfg idx inps labs cnts = Inl AssertionError"
    and "0 < batch_size cfg"
  shows "write_batches cfg batched w ts (recs, cnts, nb) =
     (if ts = [] \<or> (use_tpu cfg \<and> min (w - 1 - hd ts) (tgt_len cfg) < tgt_len cfg)
      then (recs, Inr nb) else (recs, Inl AssertionError))"
proof (cases ts)
  case Nil
  then show ?thesis by simp
next
  case (Cons t ts')
  have ne: "[0..<batch_size cfg] \<noteq> []" using assms(2) by simp
  show ?thesis
    unfolding Cons
    by (simp add: Let_def write_rows_assert [OF assms(1) ne] del: upt_Suc)
qed

text \<open>
  C4. For every example and every tail bucket, the encoder emits at most \<open>bin_size\<close>
  (position, slot) tuples: the matching positions are taken in order and get the
  consecutive slots from the shard counter on, below \<open>bin_size\<close>; once the counter
  has reached \<open>bin_size\<close> the remaining positions are skipped. With \<open>bin_size = 8\<close>,
  ten matching positions and a counter at 0, 8 tuples are emitted and the last two
  positions are in no tuple.
\<close>

theorem perm_feature_capacity:
  assumes "length cnts = length sizes" and "length pos_per_bin = length sizes"
    and "b < length sizes" and "0 \<le> cnts ! b"
  shows "\<exists>feats cnts'. add_perm_feature pos_per_bin 0 sizes cnts = Inr (feats, cnts')
     \<and> (let pos = pos_per_bin ! b; c = cnts ! b;
             n = min (length pos) (nat (sizes ! b - c));
             tuples = zip (map int (take n pos)) (map (\<lambda>k. c + int k) [0..<n])
         in feats ! b = (n, flatten_tuples tuples)
            \<and> n \<le> nat (sizes ! b)
            \<and> (\<forall>(p, slot) \<in> set tuples. c \<le> slot \<and> slot < sizes ! b)
            \<and> cnts' ! b = c + int n)
     \<and> add_perm_feature [[2, 3, 5, 7, 11, 13, 17, 19, 23, 29]] 0 [8] [0]
          = Inr ([(8, [2, 0, 3, 1, 5, 2, 7, 3, 11, 4, 13, 5, 17, 6, 19, 7])], [8])"
proof -
  have le: "0 + length pos_per_bin \<le> length sizes" using assms(2) by simp
  obtain feats cnts' where r: "add_perm_feature pos_per_bin 0 sizes cnts = Inr (feats, cnts')"
    and at: "\<forall>k < length pos_per_bin.
          feats ! k = (length (spec_tuples (pos_per_bin ! k) (cnts ! (0 + k)) (sizes ! (0 + k))),
                       flatten_tuples (spec_tuples (pos_per_bin ! k) (cnts ! (0 + k)) (sizes ! (0 + k))))
          \<and> cnts' ! (0 + k) = cnts ! (0 + k)
               + int (length (spec_tuples (pos_per_bin ! k) (cnts ! (0 + k)) (sizes ! (0 + k))))"
    using add_perm_feature_spec [OF assms(1) le] by blast
  let ?pos = "pos_per_bin ! b" and ?c = "cnts ! b"
  let ?n = "min (length ?pos) (nat (sizes ! b - ?c))"
  let ?tuples = "zip (map int (take ?n ?pos)) (map (\<lambda>k. ?c + int k) [0..<?n])"
  have st: "spec_tuples ?pos ?c (sizes ! b) = ?tuples"
    by (simp add: spec_tuples_def Let_def)
  have len: "length ?tuples = ?n" by simp
  from at assms(2,3) have fb: "feats ! b = (?n, flatten_tuples ?tuples)"
    and cb: "cnts' ! b = ?c + int ?n"
    unfolding st [symmetric] by (simp_all add: length_spec_tuples)
  have cap: "?n \<le> nat (sizes ! b)" using assms(4) by simp
  have slots: "\<forall>(p, slot) \<in> set ?tuples. ?c \<le> slot \<and> slot < sizes ! b"
  proof (clarify)
    fix p slot assume "(p, slot) \<in> set ?tuples"
    then have "slot \<in> set (map (\<lambda>k. ?c + int k) [0..<?n])" by (rule set_zip_rightD)
    then obtain k where "k < ?n" "slot = ?c + int k" by auto
    then show "?c \<le> slot \<and> slot < sizes ! b" by auto
  qed
  have ex: "add_perm_feature [[2, 3, 5, 7, 11, 13, 17, 19, 23, 29]] 0 [8] [0]
          = Inr ([(8, [2, 0, 3, 1, 5, 2, 7, 3, 11, 4, 13, 5, 17, 6, 19, 7])], [8])"
    by (simp add: flatten_tuples_def)
  from r fb cap slots cb ex show ?thesis
    unfolding Let_def by blast
qed

theorem perm_feature_capacity_witness:
  "length [1 :: int, 0] = length [2 :: int, 2] \<and> length [[0, 2, 3], [1 :: nat]] = length [2 :: int, 2]
   \<and> (0 :: nat) < length [2 :: int, 2] \<and> (0 :: int) \<le> [1, 0] ! 0
   \<and> (\<exists>feats cnts'. add_perm_feature [[0, 2, 3], [1]] 0 [2, 2] [1, 0] = Inr (feats, cnts')
        \<and> feats ! 0 = (1, [0, 1]) \<and> cnts' ! 0 = 2)"
  using perm_feature_capacity [of "[1, 0]" "[2, 2]" "[[0, 2, 3], [1]]" 0]
  by (auto simp add: Let_def flatten_tuples_def)

text \<open>
  C10. \<open>head_labels\<close> is computed from the labels alone. Where the label lies in the
  head bucket \<open>[cutoffs[0], cutoffs[1])\<close> it is the label; where the label lies in
  tail bucket \<open>b\<close> it is \<open>cutoffs[1] + b\<close>, and only such positions are rewritten.
  The \<open>inputs\<close> (and \<open>labels\<close>) features are the arrays they were built from.
  Cutoffs are increasing, as the data model has them.
\<close>

theorem head_labels_frame:
  assumes "encode_example cfg idx inps labs cnts = Inr (ex, cnts')" and "bucketed ex = Some bf"
    and "sorted (cutoffs cfg)" and "p < length labs"
  shows "inputs ex = inps \<and> labels ex = labs
     \<and> head_labels bf = fst (bin_loop (cutoffs cfg) inps' labs)
     \<and> length (head_labels bf) = length labs
     \<and> (in_range (cutoffs cfg ! 0) (cutoffs cfg ! 1) (labs ! p)
          \<longrightarrow> head_labels bf ! p = labs ! p)
     \<and> (b + 2 < length (cutoffs cfg)
          \<and> in_range (cutoffs cfg ! (b + 1)) (cutoffs cfg ! (b + 2)) (labs ! p)
          \<longrightarrow> head_labels bf ! p = cutoffs cfg ! 1 + int b)
     \<and> (head_labels bf ! p \<noteq> labs ! p
          \<longrightarrow> (\<exists>b'. b' + 2 < length (cutoffs cfg)
                \<and> in_range (cutoffs cfg ! (b' + 1)) (cutoffs cfg ! (b' + 2)) (labs ! p)))"
proof -
  let ?cs = "cutoffs cfg"
  have e: "inputs ex = inps" "labels ex = labs" "head_labels bf = fst (bin_loop ?cs inps labs)"
    using encode_example_bucketed [OF assms(1,2)] by simp_all
  have indep: "fst (bin_loop ?cs inps labs) = fst (bin_loop ?cs inps' labs)"
    by (simp add: fst_bin_loop)
  have len: "length (head_labels bf) = length labs"
    by (simp add: e(3) fst_bin_loop)
  have hd: "head_labels bf ! p = labs ! p" if "in_range (?cs ! 0) (?cs ! 1) (labs ! p)"
  proof -
    from that have "labs ! p < ?cs ! 1" by (simp add: in_range_def)
    then show ?thesis
      unfolding e(3) using head_bucket_not_tail [OF assms(3)]
      by (intro head_labels_unchanged [OF assms(4)]) blast
  qed
  have tl: "head_labels bf ! p = ?cs ! 1 + int b"
    if "b + 2 < length ?cs \<and> in_range (?cs ! (b + 1)) (?cs ! (b + 2)) (labs ! p)"
    unfolding e(3) using that by (intro head_labels_tail [OF assms(3,4)]) simp_all
  have only: "\<exists>b'. b' + 2 < length ?cs \<and> in_range (?cs ! (b' + 1)) (?cs ! (b' + 2)) (labs ! p)"
    if "head_labels bf ! p \<noteq> labs ! p"
  proof (rule ccontr)
    assume "\<not> ?thesis"
    then have "fst (bin_loop ?cs inps labs) ! p = labs ! p"
      by (intro head_labels_unchanged [OF assms(4)]) blast
    with that show False by (simp add: e(3))
  qed
  from e indep len hd tl only show ?thesis by simp
qed

theorem head_labels_frame_witness:
  "encode_example \<lparr>cutoffs = [0, 3, 6, 10], bin_sizes = [2, 2], batch_size = 2, tgt_len = 4,
       num_core_per_host = 1, use_tpu = True\<rparr> 0 [0, 1, 4, 8] [1, 4, 8, 2] ([], [])
     = Inr (\<lparr>inputs = [0, 1, 4, 8], labels = [1, 4, 8, 2],
             bucketed = Some \<lparr>inp_mask = [1, 1, 0, 0], tgt_mask = [1, 0, 0, 1],
               head_labels = [1, 3, 4, 2],
               inp_perm = [(1, [2, 0]), (1, [3, 0])],
               tgt_perm = [(1, [1, 0]), (1, [2, 0])]\<rparr>\<rparr>, [1, 1], [1, 1])
   \<and> sorted [0, 3, 6, 10 :: int] \<and> (2 :: nat) < length [1, 4, 8, 2 :: int]
   \<and> in_range 0 3 ([1, 4, 8, 2] ! 0) \<and> [1, 3, 4, 2 :: int] ! 0 = [1, 4, 8, 2] ! 0
   \<and> in_range 6 10 ([1, 4, 8, 2] ! 2) \<and> [1, 3, 4, 2 :: int] ! 2 = 3 + 1
   \<and> [1, 3, 4, 2 :: int] ! 2 \<noteq> [1, 4, 8, 2] ! 2"
proof -
  let ?cfg = "\<lparr>cutoffs = [0, 3, 6, 10], bin_sizes = [2, 2], batch_size = 2, tgt_len = 4,
       num_core_per_host = 1, use_tpu = True\<rparr>"
  let ?bf = "\<lparr>inp_mask = [1, 1, 0, 0], tgt_mask = [1, 0, 0, 1],
               head_labels = [1, 3, 4, 2],
               inp_perm = [(1, [2, 0]), (1, [3, 0])],
               tgt_perm = [(1, [1, 0]), (1, [2, 0])]\<rparr>"
  let ?ex = "\<lparr>inputs = [0, 1, 4, 8], labels = [1, 4, 8, 2], bucketed = Some ?bf\<rparr>"
  have enc: "encode_example ?cfg 0 [0, 1, 4, 8] [1, 4, 8, 2] ([], [])
      = Inr (?ex, [1, 1], [1, 1])"
    by (simp add: encode_example_def bin_loop_def tail_bins_def bin_step_def np_where_def
        in_range_def set_positions_def range_mask_def flatten_tuples_def Let_def upt_rec)
  have b: "bucketed ?ex = Some ?bf" by simp
  have s: "sorted (cutoffs ?cfg)" by simp
  have p0: "0 < length [1, 4, 8, 2 :: int]" and p2: "2 < length [1, 4, 8, 2 :: int]" by simp_all
  have bl: "fst (bin_loop [0, 3, 6, 10] [] [1, 4, 8, 2]) = [1, 3, 4, 2]"
    by (simp add: bin_loop_def tail_bins_def bin_step_def np_where_def in_range_def
        set_positions_def Let_def upt_rec)
  from head_labels_frame [OF enc b s p0, of "[]" 0] head_labels_frame [OF enc b s p2, of "[]" 1] enc
  show ?thesis by (simp add: in_range_def bl)
qed

text \<open>
  C8, as the specification states it: whenever \<open>len(cutoffs) - len(bin_sizes) \<noteq> 2\<close>,
  serialization aborts before any record is written. With no cutoffs and no bin
  sizes (the difference is 0) the assertion is not reached: the one window of the
  data is written and the call returns one batch.
\<close>

theorem create_ordered_tfrecords_unchecked:
  "int (length ([] :: int list)) - int (length ([] :: int list)) \<noteq> 2
   \<and> create_ordered_tfrecords
        \<lparr>cutoffs = [], bin_sizes = [], batch_size = 1, tgt_len = 2,
          num_core_per_host = 1, use_tpu = True\<rparr> [1, 2, 3] 1 id
      = ([\<lparr>inputs = [1, 2], labels = [2, 3], bucketed = None\<rparr>], Inr 1)"
  by (simp add: create_ordered_tfrecords_def batchify_def py_range0_def encode_example_def
      Let_def)

text \<open>
  C8, amended: when \<open>len(cutoffs) > 0\<close> and \<open>use_tpu\<close> hold and
  \<open>len(cutoffs) - len(bin_sizes) \<noteq> 2\<close>, no record is written: the call either fails
  or (when the data has no full window) returns 0 batches, and it fails with the
  assertion as soon as there is a first window. The assertion is part of the
  encoding of each example, which fails on its own for every example.
\<close>

theorem create_ordered_tfrecords_fail_fast:
  assumes "length (cutoffs cfg) > 0" and "use_tpu cfg"
    and "int (length (cutoffs cfg)) - int (length (bin_sizes cfg)) \<noteq> 2"
  shows "fst (create_ordered_tfrecords cfg data num_passes draw) = []
     \<and> (snd (create_ordered_tfrecords cfg data num_passes draw) = Inr 0
          \<or> (\<exists>e. snd (create_ordered_tfrecords cfg data num_passes draw) = Inl e))
     \<and> (batchify data (batch_size cfg) num_passes draw = Inr batched
          \<and> 0 < tgt_len cfg \<and> tgt_len cfg < length (batched ! 0)
          \<longrightarrow> create_ordered_tfrecords cfg data num_passes draw = ([], Inl AssertionError))
     \<and> encode_example cfg idx inps labs cnts = Inl AssertionError"
proof -
  have enc: "encode_example cfg idx inps labs cnts = Inl AssertionError" for idx inps labs cnts
    using assms by (rule encode_example_assert)
  show ?thesis
  proof (cases "batchify data (batch_size cfg) num_passes draw")
    case (Inl e)
    then show ?thesis by (simp add: create_ordered_tfrecords_def enc)
  next
    case (Inr bd)
    then have bsz: "0 < batch_size cfg"
      by (auto simp add: batchify_def Let_def split: if_splits)
    let ?w = "length (bd ! 0)"
    let ?ts = "py_range0 (?w - 1) (tgt_len cfg)"
    note wb = write_batches_assert [OF enc bsz, of bd ?w ?ts "[]" "([], [])" 0]
    have full: "?ts \<noteq> [] \<and> \<not> min (?w - 1 - hd ?ts) (tgt_len cfg) < tgt_len cfg"
      if "0 < tgt_len cfg" "tgt_len cfg < ?w"
    proof -
      have "1 \<le> (?w - 1 + tgt_len cfg - 1) div tgt_len cfg"
        using that by (simp add: Suc_le_eq div_greater_zero_iff)
      then have "[0..<(?w - 1 + tgt_len cfg - 1) div tgt_len cfg]
          = 0 # [1..<(?w - 1 + tgt_len cfg - 1) div tgt_len cfg]"
        by (simp add: upt_conv_Cons)
      then have "?ts \<noteq> []" "hd ?ts = 0"
        by (simp_all add: py_range0_def)
      with that show ?thesis by simp
    qed
    show ?thesis
      using Inr wb full
      by (auto simp add: create_ordered_tfrecords_def Let_def enc)
  qed
qed

theorem create_ordered_tfrecords_fail_fast_witness:
  "length [0, 3, 6, 10 :: int] > 0 \<and> int (length [0, 3, 6, 10 :: int]) - int (length [2 :: int]) \<noteq> 2
   \<and> batchify [1, 2, 3] 1 1 id = Inr [[1, 2, 3]]
   \<and> (0 :: nat) < 2 \<and> (2 :: nat) < length ([[1, 2, 3 :: int]] ! 0)
   \<and> create_ordered_tfrecords
        \<lparr>cutoffs = [0, 3, 6, 10], bin_sizes = [2], batch_size = 1, tgt_len = 2,
          num_core_per_host = 1, use_tpu = True\<rparr> [1, 2, 3] 1 id
      = ([], Inl AssertionError)"
proof -
  have b: "batchify [1, 2, 3] 1 1 id = Inr [[1, 2, 3]]"
    by (simp add: batchify_def Let_def)
  from create_ordered_tfrecords_fail_fast
    [of "\<lparr>cutoffs = [0, 3, 6, 10], bin_sizes = [2], batch_size = 1, tgt_len = 2,
          num_core_per_host = 1, use_tpu = True\<rparr>" "[1, 2, 3]" 1 id "[[1, 2, 3]]"] b
  show ?thesis by simp
qed

subsection \<open>Adaptive softmax\<close>

lemma checked_all_map_Inr: "checked_all (map (\<lambda>x. Inr (g x)) xs) = Inr (map g xs)"
  by (induction xs) simp_all

lemma checked_all_map:
  assumes "\<And>x. x \<in> set xs \<Longrightarrow> f x = Inr (g x)"
  shows "checked_all (map f xs) = Inr (map g xs)"
  using assms by (induction xs) simp_all


lemma map2_nth:
  assumes "length xs = length ys"
  shows "map2 f xs ys = map (\<lambda>p. f (xs ! p) (ys ! p)) [0..<length xs]"
  using assms by (intro nth_equalityI) simp_all

lemma map2_map_map: "map2 h (map f xs) (map g xs) = map (\<lambda>x. h (f x) (g x)) xs"
  by (induction xs) simp_all

lemma sum_list_upt: "sum_list (map f [0..<n]) = (\<Sum>p<n. f p)"
  by (simp add: interv_sum_list_conv_sum_set_nat atLeast0LessThan)






lemma fold_pair_sum:
  "fold (\<lambda>(l, c) acc. acc + l) parts a = a + sum_list (map fst parts)"
  "fold (\<lambda>(l, c) acc. acc + c) parts a = (a :: real) + sum_list (map snd parts)"
  by (induction parts arbitrary: a) (simp_all add: case_prod_beta)


lemma length_logit [simp]: "length (logit x W b proj) = min (length W) (length b)"
  by (simp add: logit_def Let_def)

lemma length_log_softmax [simp]: "length (log_softmax v) = length v"
  by (simp add: log_softmax_def)

lemma length_head_logit [simp]:
  "length (head_logit hidden ws cluster_W cluster_b) = length hidden"
  by (simp add: head_logit_def)

lemma cutoff_ends_simps:
  "length (cutoff_ends n_token cs) = length cs + 2"
  "cutoff_ends n_token cs ! 0 = 0"
  by (simp_all add: cutoff_ends_def)

lemma strict_sorted_nth:
  assumes "sorted_wrt (<) (es :: int list)" and "i < j" and "j < length es"
  shows "es ! i < es ! j"
  using assms by (simp add: sorted_wrt_iff_nth_less)


lemma weights_shapedD:
  assumes "weights_shaped ws ends cluster_W cluster_b" and "i + 1 < length ends"
  shows "int (length (cur_W (ws ! i))) = ends ! (i + 1) - ends ! i"
    and "length (cur_b (ws ! i)) = length (cur_W (ws ! i))"
    and "length cluster_W = length ends - 2" and "length cluster_b = length ends - 2"
  using assms by (auto simp add: weights_shaped_def list_all_iff)

lemma length_head_row:
  assumes "weights_shaped ws ends cluster_W cluster_b" and "1 < length ends" and "ends ! 0 = 0"
    and "p < length hidden"
  shows "int (length (head_logit hidden ws cluster_W cluster_b ! p))
           = ends ! 1 + int (length ends) - 2"
proof -
  have "int (length (cur_W (ws ! 0))) = ends ! 1"
    using weights_shapedD(1) [OF assms(1), of 0] assms(2,3) by simp
  moreover have "length (cur_b (ws ! 0)) = length (cur_W (ws ! 0))"
    using weights_shapedD(2) [OF assms(1), of 0] assms(2) by simp
  moreover note weights_shapedD(3,4) [OF assms(1), of 0]
  ultimately show ?thesis
    using assms(2,4) by (simp add: head_logit_def)
qed



lemma perm_validD:
  assumes "perm_valid perm target l r"
  shows "nrows perm = length target"
    and "\<And>p k. p < length target \<Longrightarrow> k < ncols perm
           \<Longrightarrow> entry perm p k = 0 \<or> entry perm p k = 1"
    and "\<And>k. k < ncols perm \<Longrightarrow> (\<Sum>p<length target. entry perm p k) \<le> 1"
    and "\<And>p. p < length target
           \<Longrightarrow> row_sum perm p \<le> (if in_range l r (target ! p) then 1 else 0)"
  using assms by (auto simp add: perm_valid_def list_all_iff sum_list_upt)

lemma row_sum_sum: "row_sum perm p = (\<Sum>k<ncols perm. entry perm p k)"
  by (simp add: row_sum_def sum_list_upt)

lemma column_cases:
  fixes e :: "nat \<Rightarrow> real"
  assumes "\<And>p. p < n \<Longrightarrow> e p = 0 \<or> e p = 1" and "(\<Sum>p<n. e p) \<le> 1"
  shows "(\<forall>p<n. e p = 0) \<or> (\<exists>p0<n. e p0 = 1 \<and> (\<forall>p<n. p \<noteq> p0 \<longrightarrow> e p = 0))"
proof (cases "\<forall>p<n. e p = 0")
  case True
  then show ?thesis by simp
next
  case False
  then obtain p0 where p0: "p0 < n" "e p0 = 1" using assms(1) by blast
  have "e p = 0" if "p < n" "p \<noteq> p0" for p
  proof (rule ccontr)
    assume "e p \<noteq> 0"
    then have p1: "e p = 1" using assms(1) that(1) by blast
    have nn: "\<And>q. q \<in> {..<n} \<Longrightarrow> 0 \<le> e q" using assms(1) by force
    have "(\<Sum>q\<in>{p0, p}. e q) \<le> (\<Sum>q<n. e q)"
      using p0(1) that(1) nn by (intro sum_mono2) auto
    moreover have "(\<Sum>q\<in>{p0, p}. e q) = 2" using that(2) p0(2) p1 by simp
    ultimately show False using assms(2) by simp
  qed
  with p0 show ?thesis by blast
qed

lemma onehot_sum:
  fixes e f :: "nat \<Rightarrow> real"
  assumes "p0 < n" and "e p0 = 1" and "\<forall>p<n. p \<noteq> p0 \<longrightarrow> e p = 0"
  shows "(\<Sum>p<n. f p * e p) = f p0"
proof -
  have "(\<Sum>p<n. f p * e p) = (\<Sum>p<n. if p = p0 then f p0 else 0)"
    using assms by (intro sum.cong) auto
  also have "\<dots> = f p0" using assms(1) by simp
  finally show ?thesis .
qed

lemma zero_sum:
  fixes e f :: "nat \<Rightarrow> real"
  assumes "\<forall>p<n. e p = 0"
  shows "(\<Sum>p<n. f p * e p) = 0"
  using assms by simp

lemma to_int32_of_int [simp]: "to_int32 (real_of_int z) = z"
  by (simp add: to_int32_def)

lemma to_int32_zero [simp]: "to_int32 0 = 0"
  by (simp add: to_int32_def)

lemma float_round_small: "\<bar>z\<bar> < 2 ^ 24 \<Longrightarrow> float_round z = z"
  by (simp add: float_round_def Let_def bitlen_le_iff_power)




lemma float_round_nonneg: "0 \<le> z \<Longrightarrow> 0 \<le> float_round z"
  by (auto simp add: float_round_def Let_def sgn_if pos_imp_zdiv_nonneg_iff
      intro!: mult_nonneg_nonneg)

lemma to_int32_to_float [simp]: "to_int32 (to_float z) = float_round z"
  by (simp add: to_float_def)

lemma labels_keptD:
  assumes "labels_kept perm target l r" and "p < length target"
  shows "row_sum perm p = 0 \<or> float_round (target ! p - l) < r - l"
  using assms by (simp add: labels_kept_def list_all_iff)

lemma mul_slot:
  fixes head_nll :: "real list" and proj :: "real list list option"
  assumes pv: "perm_valid perm target l r"
    and len: "length hidden = length target"
    and dims: "\<forall>h \<in> set hidden. length h = d"
    and nW: "int (length W) = r - l" "length b = length W" and lr: "l < r"
    and k: "k < ncols perm"
    and lab: "labels_kept perm target l r"
  defines "P \<equiv> length target"
  defines "CH \<equiv> (\<Sum>p<P. head_nll ! p * entry perm p k)"
  defines "TL \<equiv> logit (map (\<lambda>j. \<Sum>p<P. hidden ! p ! j * entry perm p k) [0..<d]) W b proj"
  defines "TT \<equiv> (\<Sum>p<P. to_float (target ! p - l) * entry perm p k)"
  defines "G \<equiv> \<lambda>p. head_nll ! p
      - log_softmax (logit (hidden ! p) W b proj) ! nat (float_round (target ! p - l))"
  shows "xent TL (to_int32 TT) = Inr (- (log_softmax TL ! nat (to_int32 TT)))
     \<and> (CH + - (log_softmax TL ! nat (to_int32 TT))) * (\<Sum>p<P. entry perm p k)
         = (\<Sum>p<P. entry perm p k * G p)"
proof -
  let ?e = "\<lambda>p. entry perm p k"
  have e01: "\<And>p. p < P \<Longrightarrow> ?e p = 0 \<or> ?e p = 1"
    using perm_validD(2) [OF pv _ k] by (simp add: P_def)
  have cs: "(\<Sum>p<P. ?e p) \<le> 1"
    using perm_validD(3) [OF pv k] by (simp add: P_def)
  have lTL: "int (length TL) = r - l" using nW by (simp add: TL_def)
  have "(\<forall>p<P. ?e p = 0) \<or> (\<exists>p0<P. ?e p0 = 1 \<and> (\<forall>p<P. p \<noteq> p0 \<longrightarrow> ?e p = 0))"
  proof (rule column_cases)
    fix p assume "p < P"
    then show "?e p = 0 \<or> ?e p = 1" by (rule e01)
  next
    show "(\<Sum>p<P. ?e p) \<le> 1" by (rule cs)
  qed
  then show ?thesis
  proof (elim disjE exE conjE)
    assume z: "\<forall>p<P. ?e p = 0"
    then have "TT = 0" unfolding TT_def by (intro zero_sum)
    then have x: "xent TL (to_int32 TT) = Inr (- (log_softmax TL ! nat (to_int32 TT)))"
      using lTL lr by (simp add: xent_def)
    have "(\<Sum>p<P. ?e p) = 0" "(\<Sum>p<P. ?e p * G p) = 0" using z by simp_all
    with x show ?thesis by simp
  next
    fix p0 assume p0: "p0 < P" "?e p0 = 1" "\<forall>p<P. p \<noteq> p0 \<longrightarrow> ?e p = 0"
    have ch: "CH = head_nll ! p0" unfolding CH_def by (rule onehot_sum [OF p0])
    have tt: "TT = to_float (target ! p0 - l)" unfolding TT_def by (rule onehot_sum [OF p0])
    have m: "(\<Sum>p<P. ?e p) = 1" using onehot_sum [OF p0, of "\<lambda>p. 1"] by simp
    have hp: "hidden ! p0 \<in> set hidden" using p0(1) len by (simp add: P_def)
    have "map (\<lambda>j. \<Sum>p<P. hidden ! p ! j * ?e p) [0..<d] = map (\<lambda>j. hidden ! p0 ! j) [0..<d]"
      by (intro map_cong refl onehot_sum [OF p0])
    also have "\<dots> = hidden ! p0"
      using dims hp by (intro nth_equalityI) simp_all
    finally have tl: "TL = logit (hidden ! p0) W b proj" by (simp add: TL_def)
    have "1 \<le> row_sum perm p0"
    proof -
      have "?e p0 \<le> (\<Sum>j<ncols perm. entry perm p0 j)"
      proof (rule member_le_sum)
        show "k \<in> {..<ncols perm}" using k by simp
        show "\<And>j. j \<in> {..<ncols perm} - {k} \<Longrightarrow> 0 \<le> entry perm p0 j"
          using perm_validD(2) [OF pv, of p0] p0(1) by (force simp add: P_def)
      qed simp
      then show ?thesis using p0(2) by (simp add: row_sum_sum)
    qed
    note rs = this
    with perm_validD(4) [OF pv, of p0] p0(1) have "in_range l r (target ! p0)"
      by (simp add: P_def split: if_splits)
    then have "0 \<le> target ! p0 - l" by (simp add: in_range_def)
    then have "0 \<le> float_round (target ! p0 - l)" by (rule float_round_nonneg)
    moreover have "float_round (target ! p0 - l) < r - l"
      using labels_keptD [OF lab, of p0] p0(1) rs by (simp add: P_def)
    ultimately have rng: "0 \<le> float_round (target ! p0 - l)"
      "float_round (target ! p0 - l) < r - l" by simp_all
    have ti: "to_int32 TT = float_round (target ! p0 - l)"
      unfolding tt by (rule to_int32_to_float)
    have x: "xent TL (to_int32 TT) = Inr (- (log_softmax TL ! nat (to_int32 TT)))"
      using rng lTL by (simp add: xent_def ti)
    have "(\<Sum>p<P. ?e p * G p) = G p0"
      using onehot_sum [OF p0, of G] by (simp add: mult.commute)
    then have "(CH + - (log_softmax TL ! nat (to_int32 TT))) * (\<Sum>p<P. ?e p)
        = (\<Sum>p<P. ?e p * G p)"
      unfolding m ch ti by (simp add: G_def tl)
    with x show ?thesis by simp
  qed
qed

lemma mul_bucket_eq:
  assumes sh: "weights_shaped ws ends cluster_W cluster_b"
    and srt: "sorted_wrt (<) ends"
    and len: "length hidden = length target"
    and dims: "\<forall>h \<in> set hidden. length h = d"
    and i: "1 \<le> i" "i + 1 < length ends"
    and pl: "i \<le> length perms"
    and pv: "perm_valid (perms ! (i - 1)) target (ends ! i) (ends ! (i + 1))"
    and lab: "labels_kept (perms ! (i - 1)) target (ends ! i) (ends ! (i + 1))"
  shows "mul_bucket hidden d target ends ws head_nll perms i
       = Inr (\<Sum>p<length target. row_sum (perms ! (i - 1)) p
                 * (head_nll ! p + tail_nll_at hidden target ends ws i p),
              \<Sum>p<length target. row_sum (perms ! (i - 1)) p)"
proof -
  define perm where "perm = perms ! (i - 1)"
  define P where "P = length target"
  define B where "B = ncols perm"
  define l where "l = ends ! i"
  define W where "W = cur_W (ws ! i)"
  define b where "b = cur_b (ws ! i)"
  define proj where "proj = cur_proj (ws ! i)"
  define CH where "CH = (\<lambda>k. \<Sum>p<P. head_nll ! p * entry perm p k)"
  define TL where "TL = (\<lambda>k. logit (map (\<lambda>j. \<Sum>p<P. hidden ! p ! j * entry perm p k) [0..<d])
      W b proj)"
  define TT where "TT = (\<lambda>k. \<Sum>p<P. to_float (target ! p - l) * entry perm p k)"
  define X where "X = (\<lambda>k. - (log_softmax (TL k) ! nat (to_int32 (TT k))))"
  define M where "M = (\<lambda>k. \<Sum>p<P. entry perm p k)"
  define G where "G = (\<lambda>p. head_nll ! p
      - log_softmax (logit (hidden ! p) W b proj) ! nat (float_round (target ! p - l)))"
  have pv': "perm_valid perm target l (ends ! (i + 1))"
    using pv by (simp add: perm_def l_def)
  have lab': "labels_kept perm target l (ends ! (i + 1))"
    using lab by (simp add: perm_def l_def)
  have nr: "nrows perm = P" using perm_validD(1) [OF pv'] by (simp add: P_def)
  have nW: "int (length W) = ends ! (i + 1) - l" "length b = length W"
    using weights_shapedD(1,2) [OF sh i(2)] by (simp_all add: W_def b_def l_def)
  have lr: "l < ends ! (i + 1)"
    unfolding l_def using i(2) by (intro strict_sorted_nth [OF srt]) simp_all
  have slot: "xent (TL k) (to_int32 (TT k)) = Inr (X k)
      \<and> (CH k + X k) * M k = (\<Sum>p<P. entry perm p k * G p)" if "k < B" for k
    using mul_slot [where head_nll = head_nll and proj = proj, OF pv' len dims nW lr _ lab', of k]
      that
    unfolding CH_def TL_def TT_def X_def M_def G_def P_def B_def by simp
  have ch: "einsum_ib_ibk head_nll perm = map CH [0..<B]"
    by (simp add: einsum_ib_ibk_def sum_list_upt nr CH_def B_def)
  have hid: "map (\<lambda>h. logit h W b proj) (einsum_ibd_ibk hidden d perm) = map TL [0..<B]"
    by (simp add: einsum_ibd_ibk_def sum_list_upt nr TL_def B_def o_def)
  have tt: "einsum_ib_ibk (map (\<lambda>t. to_float (t - l)) target) perm = map TT [0..<B]"
  proof -
    have "(\<Sum>p<P. map (\<lambda>t. to_float (t - l)) target ! p * entry perm p k) = TT k" for k
      unfolding TT_def by (intro sum.cong) (simp_all add: P_def)
    then show ?thesis
      by (simp add: einsum_ib_ibk_def sum_list_upt nr B_def)
  qed
  have mk: "reduce_sum_01 perm = map M [0..<B]"
    by (simp add: reduce_sum_01_def sum_list_upt nr M_def B_def)
  have xs: "checked_all (map2 (\<lambda>lg t. xent lg (to_int32 t)) (map TL [0..<B]) (map TT [0..<B]))
      = Inr (map X [0..<B])"
    unfolding map2_map_map by (rule checked_all_map) (use slot in simp)
  have loss: "sum_list (map2 (*) (map2 (+) (map CH [0..<B]) (map X [0..<B])) (map M [0..<B]))
      = (\<Sum>p<P. row_sum perm p * G p)"
  proof -
    have "sum_list (map2 (*) (map2 (+) (map CH [0..<B]) (map X [0..<B])) (map M [0..<B]))
        = (\<Sum>k<B. (CH k + X k) * M k)"
      unfolding map2_map_map by (rule sum_list_upt)
    also have "\<dots> = (\<Sum>k<B. \<Sum>p<P. entry perm p k * G p)"
      by (intro sum.cong refl) (use slot in simp)
    also have "\<dots> = (\<Sum>p<P. \<Sum>k<B. entry perm p k * G p)"
      by (rule sum.swap)
    also have "\<dots> = (\<Sum>p<P. row_sum perm p * G p)"
      by (simp add: row_sum_sum B_def sum_distrib_right)
    finally show ?thesis .
  qed
  have cnt: "sum_list (map M [0..<B]) = (\<Sum>p<P. row_sum perm p)"
  proof -
    have "sum_list (map M [0..<B]) = (\<Sum>k<B. \<Sum>p<P. entry perm p k)"
      unfolding M_def by (rule sum_list_upt)
    also have "\<dots> = (\<Sum>p<P. \<Sum>k<B. entry perm p k)" by (rule sum.swap)
    finally show ?thesis by (simp add: row_sum_sum B_def)
  qed
  have g: "G p = head_nll ! p + tail_nll_at hidden target ends ws i p" for p
    by (simp add: G_def tail_nll_at_def W_def b_def proj_def l_def)
  have "mul_bucket hidden d target ends ws head_nll perms i
      = Inr (\<Sum>p<P. row_sum perm p * G p, \<Sum>p<P. row_sum perm p)"
    using pl i(1) ch hid tt mk xs loss cnt
    unfolding mul_bucket_def Let_def perm_def [symmetric] l_def [symmetric] W_def [symmetric]
      b_def [symmetric] proj_def [symmetric]
    by simp
  then show ?thesis
    unfolding g P_def perm_def .
qed

lemma sum_shift_Suc: "(\<Sum>i<Suc n. f i) = f 0 + (\<Sum>i<n. (f (Suc i) :: real))"
  by (induction n) simp_all

lemma sum_list_Suc_upt: "sum_list (map f [Suc 0..<Suc n]) = (\<Sum>i<n. (f (Suc i) :: real))"
proof -
  have "[Suc 0..<Suc n] = map Suc [0..<n]" by (simp add: map_Suc_upt del: upt_Suc)
  then show ?thesis by (simp add: o_def sum_list_upt del: upt_Suc)
qed

lemma mul_adaptive_logsoftmax_eq:
  assumes sh: "weights_shaped ws (cutoff_ends n_token cs) cluster_W cluster_b"
    and srt: "sorted_wrt (<) (cutoff_ends n_token cs)"
    and len: "length hidden = length target"
    and dims: "\<forall>h \<in> set hidden. length h = d"
    and cs: "cs \<noteq> []"
    and ht: "length head_target = length target"
    and htr: "\<forall>t \<in> set head_target. 0 \<le> t \<and> t < cutoff_ends n_token cs ! 1 + int (length cs)"
    and p0: "length perm0 = length target"
    and pl: "length perms = length cs"
    and pv: "\<forall>i. 1 \<le> i \<and> i \<le> length cs \<longrightarrow>
        perm_valid (perms ! (i - 1)) target (cutoff_ends n_token cs ! i)
          (cutoff_ends n_token cs ! (i + 1))"
    and lab: "\<forall>i. 1 \<le> i \<and> i \<le> length cs \<longrightarrow>
        labels_kept (perms ! (i - 1)) target (cutoff_ends n_token cs ! i)
          (cutoff_ends n_token cs ! (i + 1))"
  shows "mul_adaptive_logsoftmax hidden d target n_token cs ws cluster_W cluster_b
           perm0 perms head_target
       = Inr (truediv (\<Sum>i<length cs + 1. \<Sum>p<length target. routed perm0 perms i p
                  * mul_token_nll hidden target head_target (cutoff_ends n_token cs) ws
                      cluster_W cluster_b i p)
                (\<Sum>i<length cs + 1. \<Sum>p<length target. routed perm0 perms i p))"
proof -
  let ?ends = "cutoff_ends n_token cs"
  let ?P = "length target"
  let ?hl = "head_logit hidden ws cluster_W cluster_b"
  let ?nll = "mul_token_nll hidden target head_target ?ends ws cluster_W cluster_b"
  let ?hn = "map (?nll 0) [0..<?P]"
  have le: "1 < length ?ends" and e0: "?ends ! 0 = 0" and nb: "length ?ends - 1 = length cs + 1"
    by (simp_all add: cutoff_ends_simps)
  have hx: "xent (?hl ! p) (head_target ! p) = Inr (?nll 0 p)" if "p < ?P" for p
  proof -
    have "p < length hidden" using that len by simp
    from length_head_row [OF sh le e0 this]
    have "int (length (?hl ! p)) = ?ends ! 1 + int (length cs)"
      by (simp add: cutoff_ends_simps)
    moreover have "head_target ! p \<in> set head_target" using that ht by simp
    ultimately show ?thesis
      using htr by (auto simp add: xent_def mul_token_nll_def)
  qed
  have "map2 xent ?hl head_target = map (\<lambda>p. xent (?hl ! p) (head_target ! p)) [0..<?P]"
    using map2_nth [of ?hl head_target xent] len ht by simp
  then have head: "checked_all (map2 xent ?hl head_target) = Inr ?hn"
    using checked_all_map [of "[0..<?P]" "\<lambda>p. xent (?hl ! p) (head_target ! p)" "?nll 0"] hx
    by simp
  have hloss: "sum_list (map2 (*) ?hn perm0) = (\<Sum>p<?P. routed perm0 perms 0 p * ?nll 0 p)"
  proof -
    have "map2 (*) ?hn perm0 = map (\<lambda>p. ?hn ! p * perm0 ! p) [0..<?P]"
      using map2_nth [of ?hn perm0 "(*)"] p0 by simp
    also have "\<dots> = map (\<lambda>p. routed perm0 perms 0 p * ?nll 0 p) [0..<?P]"
      by (intro map_cong refl) (simp add: routed_def mult.commute)
    finally show ?thesis by (simp add: sum_list_upt)
  qed
  have hcnt: "sum_list perm0 = (\<Sum>p<?P. routed perm0 perms 0 p)"
  proof -
    have "perm0 = map (\<lambda>p. perm0 ! p) [0..<?P]"
      using p0 by (intro nth_equalityI) simp_all
    then have "sum_list perm0 = sum_list (map (\<lambda>p. perm0 ! p) [0..<?P])" by simp
    then show ?thesis by (simp add: sum_list_upt routed_def)
  qed
  let ?L = "\<lambda>i. \<Sum>p<?P. routed perm0 perms i p * ?nll i p"
  let ?C = "\<lambda>i. \<Sum>p<?P. routed perm0 perms i p"
  have b: "mul_bucket hidden d target ?ends ws ?hn perms i = Inr (?L i, ?C i)"
    if "i \<in> set [1..<length cs + 1]" for i
  proof -
    from that have i: "1 \<le> i" "i + 1 < length ?ends" "i \<le> length perms"
      using pl by (auto simp add: cutoff_ends_simps)
    have v: "perm_valid (perms ! (i - 1)) target (?ends ! i) (?ends ! (i + 1))"
      using pv i pl by simp
    have lk: "labels_kept (perms ! (i - 1)) target (?ends ! i) (?ends ! (i + 1))"
      using lab i pl by simp
    have "(\<Sum>p<?P. row_sum (perms ! (i - 1)) p
            * (?hn ! p + tail_nll_at hidden target ?ends ws i p)) = ?L i"
      using i(1) by (intro sum.cong refl) (simp add: routed_def mul_token_nll_def Let_def)
    moreover have "(\<Sum>p<?P. row_sum (perms ! (i - 1)) p) = ?C i"
      using i(1) by (simp add: routed_def)
    ultimately show ?thesis
      using mul_bucket_eq [OF sh srt len dims i(1,2,3) v lk, of ?hn] by simp
  qed
  define parts where "parts = map (\<lambda>i. (?L i, ?C i)) [1..<length cs + 1]"
  have parts: "checked_all (map (mul_bucket hidden d target ?ends ws ?hn perms)
        [1..<length cs + 1]) = Inr parts"
    unfolding parts_def by (rule checked_all_map) (rule b)
  have tl: "(\<Sum>p<?P. routed perm0 perms 0 p * ?nll 0 p) + sum_list (map fst parts)
      = (\<Sum>i<length cs + 1. ?L i)"
  proof -
    have "sum_list (map fst parts) = (\<Sum>i<length cs. ?L (Suc i))"
      using sum_list_Suc_upt [of ?L "length cs"] by (simp add: parts_def o_def del: upt_Suc)
    moreover have "(\<Sum>i<length cs + 1. ?L i) = ?L 0 + (\<Sum>i<length cs. ?L (Suc i))"
      using sum_shift_Suc [of ?L "length cs"] by simp
    ultimately show ?thesis by simp
  qed
  have tc: "(\<Sum>p<?P. routed perm0 perms 0 p) + sum_list (map snd parts)
      = (\<Sum>i<length cs + 1. ?C i)"
  proof -
    have "sum_list (map snd parts) = (\<Sum>i<length cs. ?C (Suc i))"
      using sum_list_Suc_upt [of ?C "length cs"] by (simp add: parts_def o_def del: upt_Suc)
    moreover have "(\<Sum>i<length cs + 1. ?C i) = ?C 0 + (\<Sum>i<length cs. ?C (Suc i))"
      using sum_shift_Suc [of ?C "length cs"] by simp
    ultimately show ?thesis by simp
  qed
  have "mul_adaptive_logsoftmax hidden d target n_token cs ws cluster_W cluster_b
           perm0 perms head_target
      = Inr (truediv ((\<Sum>p<?P. routed perm0 perms 0 p * ?nll 0 p) + sum_list (map fst parts))
             ((\<Sum>p<?P. routed perm0 perms 0 p) + sum_list (map snd parts)))"
    using cs head parts
    unfolding mul_adaptive_logsoftmax_def Let_def nb
    by (simp add: fold_pair_sum hloss hcnt del: upt_Suc)
  then show ?thesis unfolding tl tc .
qed





lemma row_sum_01:
  assumes pv: "perm_valid perm target l r" and p: "p < length target"
  shows "row_sum perm p = 0 \<or> row_sum perm p = 1"
proof -
  let ?e = "\<lambda>k. entry perm p k"
  have "(\<forall>k<ncols perm. ?e k = 0)
      \<or> (\<exists>k0<ncols perm. ?e k0 = 1 \<and> (\<forall>k<ncols perm. k \<noteq> k0 \<longrightarrow> ?e k = 0))"
  proof (rule column_cases)
    fix k assume "k < ncols perm"
    then show "?e k = 0 \<or> ?e k = 1" using perm_validD(2) [OF pv p] by simp
  next
    have "row_sum perm p \<le> 1" using perm_validD(4) [OF pv p] by (simp split: if_splits)
    then show "(\<Sum>k<ncols perm. ?e k) \<le> 1" by (simp add: row_sum_sum)
  qed
  then show ?thesis
  proof (elim disjE exE conjE)
    assume "\<forall>k<ncols perm. ?e k = 0"
    then show ?thesis by (simp add: row_sum_sum)
  next
    fix k0 assume "k0 < ncols perm" "?e k0 = 1" "\<forall>k<ncols perm. k \<noteq> k0 \<longrightarrow> ?e k = 0"
    from onehot_sum [OF this, of "\<lambda>k. 1"] show ?thesis by (simp add: row_sum_sum)
  qed
qed

lemma sum_list_product:
  "sum_list (map (\<lambda>(i, p). g i p) (List.product xs ys))
     = sum_list (map (\<lambda>i. sum_list (map (g i) ys)) xs)"
  for g :: "'a \<Rightarrow> 'b \<Rightarrow> real"
  by (induction xs) (simp_all add: o_def)

lemma sum_list_01_count:
  fixes f :: "'a \<Rightarrow> real"
  assumes "\<forall>x \<in> set xs. f x = 0 \<or> f x = 1"
  shows "sum_list (map f xs) = real (length (filter (\<lambda>x. f x = 1) xs))"
  using assms by (induction xs) auto

lemma sum_zero_nonneg:
  fixes f :: "nat \<Rightarrow> real"
  assumes "(\<Sum>p<n. f p) = 0" and "\<forall>p<n. 0 \<le> f p" and "p < n"
  shows "f p = 0"
proof -
  have "(\<Sum>p<n. f p) = 0 \<longleftrightarrow> (\<forall>p \<in> {..<n}. f p = 0)"
    using assms(2) by (intro sum_nonneg_eq_0_iff) simp_all
  with assms(1,3) show ?thesis by simp
qed

text \<open>
  C5. In permutation mode with non-empty cutoffs the loss is the sum, over the
  buckets, of the cross-entropy terms masked by the indicator of the slots in use,
  divided by the sum of these indicators. Per position: the indicator \<open>routed i p\<close>
  (the head mask for bucket 0, the row sum of the permutation matrix for a tail
  bucket) is 0 or 1, the numerator is the sum of the terms of the routed tokens and
  the denominator is their number; with no routed token the quotient is \<open>0 / 0\<close>,
  \<open>nan\<close>. A token that capacity truncation left out of every bucket has the
  indicator 0 everywhere and enters neither. The term of a routed tail token is the
  cross-entropy at its label as it comes out of the float32 einsum.
\<close>

theorem mul_loss_over_routed_tokens:
  assumes "cs \<noteq> []"
    and "sorted_wrt (<) (cutoff_ends n_token cs)"
    and "weights_shaped ws (cutoff_ends n_token cs) cluster_W cluster_b"
    and "length hidden = length target"
    and "list_all (\<lambda>h. length h = d) hidden"
    and "length head_target = length target"
    and "list_all (\<lambda>t. 0 \<le> t \<and> t < cutoff_ends n_token cs ! 1 + int (length cs)) head_target"
    and "length perm0 = length target"
    and "list_all (\<lambda>x. x = 0 \<or> x = 1) perm0"
    and "length perms = length cs"
    and "list_all (\<lambda>i. perm_valid (perms ! (i - 1)) target (cutoff_ends n_token cs ! i)
                     (cutoff_ends n_token cs ! (i + 1))
                   \<and> labels_kept (perms ! (i - 1)) target (cutoff_ends n_token cs ! i)
                       (cutoff_ends n_token cs ! (i + 1))) [1..<length cs + 1]"
  shows "mul_adaptive_logsoftmax hidden d target n_token cs ws cluster_W cluster_b
           perm0 perms head_target
       = Inr (truediv
               (\<Sum>i<length cs + 1. \<Sum>p<length target. routed perm0 perms i p
                  * mul_token_nll hidden target head_target (cutoff_ends n_token cs) ws
                      cluster_W cluster_b i p)
               (\<Sum>i<length cs + 1. \<Sum>p<length target. routed perm0 perms i p))
     \<and> (\<forall>i<length cs + 1. \<forall>p<length target.
           routed perm0 perms i p = 0 \<or> routed perm0 perms i p = 1)
     \<and> (\<Sum>i<length cs + 1. \<Sum>p<length target. routed perm0 perms i p)
         = real (length (filter (\<lambda>(i, p). routed perm0 perms i p = 1)
                   (List.product [0..<length cs + 1] [0..<length target])))
     \<and> mul_adaptive_logsoftmax hidden d target n_token cs ws cluster_W cluster_b
           perm0 perms head_target
       = Inr (if (\<Sum>i<length cs + 1. \<Sum>p<length target. routed perm0 perms i p) = 0 then NaN
              else Finite
               ((\<Sum>i<length cs + 1. \<Sum>p<length target. routed perm0 perms i p
                  * mul_token_nll hidden target head_target (cutoff_ends n_token cs) ws
                      cluster_W cluster_b i p)
                / (\<Sum>i<length cs + 1. \<Sum>p<length target. routed perm0 perms i p)))"
proof -
  let ?ends = "cutoff_ends n_token cs"
  let ?r = "routed perm0 perms"
  let ?nll = "mul_token_nll hidden target head_target ?ends ws cluster_W cluster_b"
  let ?num = "\<Sum>i<length cs + 1. \<Sum>p<length target. ?r i p * ?nll i p"
  let ?den = "\<Sum>i<length cs + 1. \<Sum>p<length target. ?r i p"
  have dims: "\<forall>h \<in> set hidden. length h = d"
    and htr: "\<forall>t \<in> set head_target. 0 \<le> t \<and> t < ?ends ! 1 + int (length cs)"
    and p01: "\<forall>x \<in> set perm0. x = 0 \<or> x = 1"
    using assms(5,7,9) by (simp_all add: list_all_iff)
  have pv: "\<forall>i. 1 \<le> i \<and> i \<le> length cs \<longrightarrow>
        perm_valid (perms ! (i - 1)) target (?ends ! i) (?ends ! (i + 1))"
    and lab: "\<forall>i. 1 \<le> i \<and> i \<le> length cs \<longrightarrow>
        labels_kept (perms ! (i - 1)) target (?ends ! i) (?ends ! (i + 1))"
    using assms(11) by (auto simp add: list_all_iff)
  have eq: "mul_adaptive_logsoftmax hidden d target n_token cs ws cluster_W cluster_b
           perm0 perms head_target = Inr (truediv ?num ?den)"
    using assms(3,2,4) dims assms(1,6) htr assms(8,10) pv lab
    by (rule mul_adaptive_logsoftmax_eq)
  have r01: "?r i p = 0 \<or> ?r i p = 1"
    if "i < length cs + 1" "p < length target" for i p
  proof (cases "i = 0")
    case True
    have "perm0 ! p \<in> set perm0" using that(2) assms(8) by simp
    with p01 True show ?thesis by (simp add: routed_def)
  next
    case False
    then have "perm_valid (perms ! (i - 1)) target (?ends ! i) (?ends ! (i + 1))"
      using pv that(1) by simp
    from row_sum_01 [OF this that(2)] False show ?thesis by (simp add: routed_def)
  qed
  let ?prod = "List.product [0..<length cs + 1] [0..<length target]"
  have "?den = sum_list (map (\<lambda>(i, p). ?r i p) ?prod)"
    unfolding sum_list_product by (simp only: sum_list_upt)
  also have "\<dots> = real (length (filter (\<lambda>x. (case x of (i, p) \<Rightarrow> ?r i p) = 1) ?prod))"
    by (rule sum_list_01_count) (use r01 in auto)
  also have "\<dots> = real (length (filter (\<lambda>(i, p). ?r i p = 1) ?prod))"
  proof -
    have "(\<lambda>x. (case x of (i, p) \<Rightarrow> ?r i p) = 1) = (\<lambda>(i, p). ?r i p = 1)"
      by (rule ext) (simp add: case_prod_beta)
    then show ?thesis by (simp only:)
  qed
  finally have cnt: "?den = real (length (filter (\<lambda>(i, p). ?r i p = 1) ?prod))" .
  have zero: "?num = 0" if z: "?den = 0"
  proof -
    have nn: "0 \<le> ?r i p" if "i < length cs + 1" "p < length target" for i p
      using r01 [OF that] by auto
    have inner: "\<forall>i<length cs + 1. 0 \<le> (\<Sum>p<length target. ?r i p)"
      using nn by (auto intro!: sum_nonneg)
    have "?r i p = 0" if i: "i < length cs + 1" and p: "p < length target" for i p
    proof -
      have "(\<Sum>p<length target. ?r i p) = 0"
        using z inner i by (rule sum_zero_nonneg)
      moreover have "\<forall>p<length target. 0 \<le> ?r i p" using nn [OF i] by simp
      ultimately show ?thesis using p by (rule sum_zero_nonneg)
    qed
    then show ?thesis by simp
  qed
  have "truediv ?num ?den = (if ?den = 0 then NaN else Finite (?num / ?den))"
    using zero by (simp add: truediv_def)
  with eq have eq': "mul_adaptive_logsoftmax hidden d target n_token cs ws cluster_W cluster_b
           perm0 perms head_target = Inr (if ?den = 0 then NaN else Finite (?num / ?den))"
    by simp
  from eq r01 cnt eq' show ?thesis by blast
qed

theorem mul_loss_over_routed_tokens_witness:
  "[1 :: int] \<noteq> []
   \<and> sorted_wrt (<) (cutoff_ends 3 [1])
   \<and> weights_shaped
        [\<lparr>cur_W = [[1]], cur_b = [0], cur_proj = None\<rparr>,
         \<lparr>cur_W = [[1], [2]], cur_b = [0, 0], cur_proj = None\<rparr>]
        (cutoff_ends 3 [1]) [[1]] [0]
   \<and> length [[1], [2], [3 :: real]] = length [0, 1, 2 :: int]
   \<and> list_all (\<lambda>h. length h = 1) [[1], [2], [3 :: real]]
   \<and> length [0, 1, 1 :: int] = length [0, 1, 2 :: int]
   \<and> list_all (\<lambda>t. 0 \<le> t \<and> t < cutoff_ends 3 [1] ! 1 + int (length [1 :: int])) [0, 1, 1]
   \<and> length [1, 0, 0 :: real] = length [0, 1, 2 :: int]
   \<and> list_all (\<lambda>x. x = 0 \<or> x = 1) [1, 0, 0 :: real]
   \<and> length [\<lparr>nrows = 3, ncols = 1, elems = [0, 1, 0 :: real]\<rparr>] = length [1 :: int]
   \<and> perm_valid \<lparr>nrows = 3, ncols = 1, elems = [0, 1, 0]\<rparr> [0, 1, 2] 1 3
   \<and> labels_kept \<lparr>nrows = 3, ncols = 1, elems = [0, 1, 0]\<rparr> [0, 1, 2] 1 3
   \<and> (\<exists>loss. mul_adaptive_logsoftmax [[1], [2], [3]] 1 [0, 1, 2] 3 [1]
          [\<lparr>cur_W = [[1]], cur_b = [0], cur_proj = None\<rparr>,
           \<lparr>cur_W = [[1], [2]], cur_b = [0, 0], cur_proj = None\<rparr>] [[1]] [0]
          [1, 0, 0] [\<lparr>nrows = 3, ncols = 1, elems = [0, 1, 0]\<rparr>] [0, 1, 1] = Inr loss)
   \<and> routed [1, 0, 0] [\<lparr>nrows = 3, ncols = 1, elems = [0, 1, 0]\<rparr>] 0 2 = 0
   \<and> routed [1, 0, 0] [\<lparr>nrows = 3, ncols = 1, elems = [0, 1, 0]\<rparr>] 1 2 = 0"
proof -
  let ?ws = "[\<lparr>cur_W = [[1]], cur_b = [0], cur_proj = None\<rparr>,
         \<lparr>cur_W = [[1], [2]], cur_b = [0, 0], cur_proj = None\<rparr>]"
  let ?perm = "\<lparr>nrows = 3, ncols = 1, elems = [0, 1, 0 :: real]\<rparr>"
  have h1: "[1 :: int] \<noteq> []" by simp
  have h2: "sorted_wrt (<) (cutoff_ends 3 [1])" by (simp add: cutoff_ends_def)
  have h3: "weights_shaped ?ws (cutoff_ends 3 [1]) [[1]] [0]"
    by (simp add: weights_shaped_def cutoff_ends_def upt_rec)
  have h4: "length [[1], [2], [3 :: real]] = length [0, 1, 2 :: int]" by simp
  have h5: "list_all (\<lambda>h. length h = 1) [[1], [2], [3 :: real]]" by simp
  have h6: "length [0, 1, 1 :: int] = length [0, 1, 2 :: int]" by simp
  have h7: "list_all (\<lambda>t. 0 \<le> t \<and> t < cutoff_ends 3 [1] ! 1 + int (length [1 :: int])) [0, 1, 1]"
    by (simp add: cutoff_ends_def)
  have h8: "length [1, 0, 0 :: real] = length [0, 1, 2 :: int]" by simp
  have h9: "list_all (\<lambda>x. x = 0 \<or> x = 1) [1, 0, 0 :: real]" by simp
  have h10: "length [?perm] = length [1 :: int]" by simp
  have pv: "perm_valid ?perm [0, 1, 2] 1 3"
    by (simp add: perm_valid_def row_sum_def entry_def in_range_def upt_rec)
  have lk: "labels_kept ?perm [0, 1, 2] 1 3"
    by (simp add: labels_kept_def row_sum_def entry_def float_round_small upt_rec)
  have h11: "list_all (\<lambda>i. perm_valid ([?perm] ! (i - 1)) [0, 1, 2] (cutoff_ends 3 [1] ! i)
                     (cutoff_ends 3 [1] ! (i + 1))
                   \<and> labels_kept ([?perm] ! (i - 1)) [0, 1, 2] (cutoff_ends 3 [1] ! i)
                       (cutoff_ends 3 [1] ! (i + 1))) [1..<length [1 :: int] + 1]"
    using pv lk by (simp add: cutoff_ends_def)
  have r: "routed [1, 0, 0] [?perm] 0 2 = 0" "routed [1, 0, 0] [?perm] 1 2 = 0"
    by (simp_all add: routed_def row_sum_def entry_def)
  from mul_loss_over_routed_tokens [OF h1 h2 h3 h4 h5 h6 h7 h8 h9 h10 h11]
  have "\<exists>loss. mul_adaptive_logsoftmax [[1], [2], [3]] 1 [0, 1, 2] 3 [1] ?ws [[1]] [0]
          [1, 0, 0] [?perm] [0, 1, 1] = Inr loss"
    by blast
  with h1 h2 h3 h4 h5 h6 h7 h8 h9 h10 pv lk r show ?thesis by blast
qed









end
